theory Spec2Isabelle
  imports Main "HOL-Library.Word"
begin

unbundle bit_operations_syntax

section \<open>The write-ahead-log record writer (db/log_writer.cc)\<close>

text \<open>
  The source is \<^verbatim>\<open>Writer::Writer\<close>, \<^verbatim>\<open>Writer::AddRecord\<close>, \<^verbatim>\<open>Writer::add_record_with_crc\<close>
  and \<^verbatim>\<open>Writer::EmitPhysicalRecord\<close>, lines 164 to 313 of
  \<^verbatim>\<open>src/plugin/x/src/query_formatter.h\<close> (the text of \<^verbatim>\<open>db/log_writer.cc\<close> follows the
  query formatter there). The members of the C++ class end in an underscore
  (\<^verbatim>\<open>block_offset_\<close>); the record fields below drop it, a trailing underscore being
  kept for internal names in Isabelle. \<^verbatim>\<open>size_t\<close> and \<^verbatim>\<open>uint64_t\<close> are 64-bit words, \<^verbatim>\<open>uint32_t\<close> a 32-bit word,
  \<^verbatim>\<open>char\<close> an 8-bit word, \<^verbatim>\<open>int\<close> and \<^verbatim>\<open>int64_t\<close> values that never leave their range
  are \<open>int\<close>. An \<^verbatim>\<open>assert\<close> that fails is the result \<open>Inl AssertionFailed\<close>.
\<close>

subsection \<open>Types\<close>

type_synonym byte = "8 word"
type_synonym uint32 = "32 word"
type_synonym uint64 = "64 word"
type_synonym size_t = "64 word"

datatype Status = OK | IOError

datatype abort = AssertionFailed

text \<open>
  Modelled from the spec: the enumeration \<^verbatim>\<open>RecordType\<close> and the constants \<^verbatim>\<open>kBlockSize\<close>,
  \<^verbatim>\<open>kHeaderSize\<close>, \<^verbatim>\<open>kRecyclableHeaderSize\<close> and \<^verbatim>\<open>kMaxRecordType\<close> are declared in
  \<^verbatim>\<open>db/log_format.h\<close>, which is not among the sources. The spec gives a block of 32768
  bytes, a legacy header of 7 bytes, a recyclable header of 11 bytes, and four legacy type
  codes below four recyclable ones. It does not give the numbers: they are those of the
  LevelDB log format, which the copyright notice of the source names (0 for preallocated
  space, 1 to 4 legacy, 5 to 8 recyclable). What is proved needs of them only that the
  legacy codes are below \<^verbatim>\<open>kRecyclableFullType\<close> and the recyclable ones are not.
\<close>

datatype RecordType =
    kZeroType
  | kFullType
  | kFirstType
  | kMiddleType
  | kLastType
  | kRecyclableFullType
  | kRecyclableFirstType
  | kRecyclableMiddleType
  | kRecyclableLastType

fun type_code :: "RecordType \<Rightarrow> nat" where
  "type_code kZeroType = 0"
| "type_code kFullType = 1"
| "type_code kFirstType = 2"
| "type_code kMiddleType = 3"
| "type_code kLastType = 4"
| "type_code kRecyclableFullType = 5"
| "type_code kRecyclableFirstType = 6"
| "type_code kRecyclableMiddleType = 7"
| "type_code kRecyclableLastType = 8"

definition kMaxRecordType :: nat where
  "kMaxRecordType = type_code kRecyclableLastType"

definition kBlockSize :: size_t where
  "kBlockSize = 32768"

definition kHeaderSize :: int where
  "kHeaderSize = 4 + 2 + 1"

definition kRecyclableHeaderSize :: int where
  "kRecyclableHeaderSize = 4 + 2 + 1 + 4"

subsection \<open>The collaborators: encoder, checksum, file sink\<close>

text \<open>
  Modelled from the spec: \<^verbatim>\<open>EncodeFixed32\<close> (util/coding.h, not among the sources)
  writes a 32-bit value as 4 bytes, least significant byte first.
\<close>

definition EncodeFixed32 :: "uint32 \<Rightarrow> byte list" where
  "EncodeFixed32 v =
     [ucast v, ucast (drop_bit 8 v), ucast (drop_bit 16 v), ucast (drop_bit 24 v)]"

text \<open>
  Modelled from the spec: the checksum primitive (util/crc32c.h, not among the sources)
  is CRC-32C: the reflected Castagnoli polynomial, the register inverted on entry and on
  exit. \<^verbatim>\<open>Value\<close> is \<^verbatim>\<open>Extend\<close> from the seed 0.
\<close>

definition crc32c_shift :: "uint32 \<Rightarrow> uint32" where
  "crc32c_shift c = (if bit c 0 then drop_bit 1 c XOR 0x82F63B78 else drop_bit 1 c)"

definition crc32c_byte :: "uint32 \<Rightarrow> byte \<Rightarrow> uint32" where
  "crc32c_byte c b =
     crc32c_shift (crc32c_shift (crc32c_shift (crc32c_shift
       (crc32c_shift (crc32c_shift (crc32c_shift (crc32c_shift (c XOR ucast b))))))))"

definition crc32c_Extend :: "uint32 \<Rightarrow> byte list \<Rightarrow> uint32" where
  "crc32c_Extend init_crc data = NOT (foldl crc32c_byte (NOT init_crc) data)"

definition crc32c_Value :: "byte list \<Rightarrow> uint32" where
  "crc32c_Value data = crc32c_Extend 0 data"

text \<open>
  Modelled from the spec: the file sink \<^verbatim>\<open>ConcurrentDirectFileWriter\<close>
  (util/concurrent_direct_file_writer.h, not among the sources) has an \<^verbatim>\<open>append\<close> of one
  buffer and an \<^verbatim>\<open>append\<close> of a header and a payload written as one operation; each
  returns 0 on success and another value on failure. The sink is a log of the calls made
  so far, each with the code it returned, and the codes it will return: \<open>outcome d i\<close> is
  the code of the call made when \<open>i\<close> calls were made before.
\<close>

datatype append_call =
    Append1 "byte list"
  | Append2 "byte list" "byte list"

record ConcurrentDirectFileWriter =
  calls :: "(append_call \<times> int) list"
  outcome :: "nat \<Rightarrow> int"

definition append1 :: "ConcurrentDirectFileWriter \<Rightarrow> byte list \<Rightarrow> int \<times> ConcurrentDirectFileWriter" where
  "append1 d data =
     (let ret = outcome d (length (calls d))
      in (ret, d\<lparr>calls := calls d @ [(Append1 data, ret)]\<rparr>))"

definition append2 ::
  "ConcurrentDirectFileWriter \<Rightarrow> byte list \<Rightarrow> byte list \<Rightarrow> int \<times> ConcurrentDirectFileWriter" where
  "append2 d header payload =
     (let ret = outcome d (length (calls d))
      in (ret, d\<lparr>calls := calls d @ [(Append2 header payload, ret)]\<rparr>))"

subsection \<open>The writer\<close>

record Writer =
  dest :: ConcurrentDirectFileWriter
  block_offset :: size_t
  log_number :: uint64
  recycle_log_files :: bool
  use_allocator :: bool
  type_crc :: "uint32 list"

text \<open>The constructor: the cursor at 0, and the checksum of each type byte in a table.\<close>

definition Writer_new :: "ConcurrentDirectFileWriter \<Rightarrow> uint64 \<Rightarrow> bool \<Rightarrow> bool \<Rightarrow> Writer" where
  "Writer_new d n recycle alloc =
     \<lparr>dest = d, block_offset = 0, log_number = n, recycle_log_files = recycle,
      use_allocator = alloc,
      type_crc = map (\<lambda>i. crc32c_Value [word_of_nat i]) [0 ..< Suc kMaxRecordType]\<rparr>"

text \<open>
  \<^verbatim>\<open>EmitPhysicalRecord(t, ptr, n, crc)\<close>. \<open>ptr\<close> is the payload from the pointer on, so that
  \<^verbatim>\<open>Slice(ptr, n)\<close> is \<open>take (unat n) ptr\<close>. The header is the first \<open>header_size\<close> bytes of
  \<^verbatim>\<open>buf\<close>: the checksum, the two length bytes, the type byte and, in the recyclable
  format, the low 32 bits of the log number. The table \<open>type_crc\<close> is not read: the two
  lines that did are comments in the source.
\<close>

definition EmitPhysicalRecord ::
  "Writer \<Rightarrow> RecordType \<Rightarrow> byte list \<Rightarrow> size_t \<Rightarrow> uint32 \<Rightarrow> abort + (Status \<times> Writer)" where
  "EmitPhysicalRecord w t ptr n crc =
     (if \<not> n \<le> 0xffff then Inl AssertionFailed
      else
        let buf4 = (ucast (n AND 0xff) :: byte);
            buf5 = (ucast (drop_bit 8 n) :: byte);
            buf6 = (word_of_nat (type_code t) :: byte)
        in
          if type_code t < type_code kRecyclableFullType then
            if \<not> block_offset w + word_of_int kHeaderSize + n \<le> kBlockSize
            then Inl AssertionFailed
            else
              let header_size = (word_of_int kHeaderSize :: size_t);
                  buf = EncodeFixed32 crc @ [buf4, buf5, buf6];
                  (ret, d) = append2 (dest w) buf (take (unat n) ptr)
              in if 0 = ret
                 then Inr (OK, w\<lparr>dest := d, block_offset := block_offset w + (header_size + n)\<rparr>)
                 else Inr (IOError, w\<lparr>dest := d\<rparr>)
          else
            if \<not> block_offset w + word_of_int kRecyclableHeaderSize + n \<le> kBlockSize
            then Inl AssertionFailed
            else
              let header_size = (word_of_int kRecyclableHeaderSize :: size_t);
                  buf = EncodeFixed32 crc @ [buf4, buf5, buf6]
                        @ EncodeFixed32 (ucast (log_number w));
                  (ret, d) = append2 (dest w) buf (take (unat n) ptr)
              in if 0 = ret
                 then Inr (OK, w\<lparr>dest := d, block_offset := block_offset w + (header_size + n)\<rparr>)
                 else Inr (IOError, w\<lparr>dest := d\<rparr>))"

text \<open>
  The start of an iteration of the loop of \<^verbatim>\<open>add_record_with_crc\<close> (the switch to a new
  block). The filler is the first \<open>leftover\<close> bytes of a literal of ten zero bytes and its
  terminating zero byte; the result of that \<^verbatim>\<open>append\<close> is dropped, as in the source.
\<close>

definition trailer_literal :: "byte list" where
  "trailer_literal = replicate 11 0"

definition switch_block :: "Writer \<Rightarrow> int \<Rightarrow> abort + Writer" where
  "switch_block w header_size =
     (let leftover = sint (kBlockSize - block_offset w)
      in if \<not> leftover \<ge> 0 then Inl AssertionFailed
         else if leftover < header_size then
           if leftover > 0 then
             if \<not> header_size \<le> 11 then Inl AssertionFailed
             else Inr (w\<lparr>dest := snd (append1 (dest w) (take (nat leftover) trailer_literal)),
                         block_offset := 0\<rparr>)
           else Inr (w\<lparr>block_offset := 0\<rparr>)
         else Inr w)"

text \<open>
  One iteration of the loop: the switch, the fragment length, the type, the emission, and
  the pointer and the count moved on. It returns what the loop condition reads.
\<close>

definition fragment_type :: "bool \<Rightarrow> bool \<Rightarrow> bool \<Rightarrow> RecordType" where
  "fragment_type recycle begin end =
     (if begin \<and> end then (if recycle then kRecyclableFullType else kFullType)
      else if begin then (if recycle then kRecyclableFirstType else kFirstType)
      else if end then (if recycle then kRecyclableLastType else kLastType)
      else (if recycle then kRecyclableMiddleType else kMiddleType))"

definition loop_body ::
  "Writer \<Rightarrow> byte list \<Rightarrow> size_t \<Rightarrow> bool \<Rightarrow> uint32
     \<Rightarrow> abort + (Status \<times> Writer \<times> byte list \<times> size_t)" where
  "loop_body w ptr left begin crc =
     (let header_size = (if recycle_log_files w then kRecyclableHeaderSize else kHeaderSize)
      in case switch_block w header_size of
           Inl a \<Rightarrow> Inl a
         | Inr w1 \<Rightarrow>
             if \<not> sint (kBlockSize - block_offset w1) \<ge> header_size then Inl AssertionFailed
             else
               let avail = kBlockSize - block_offset w1 - word_of_int header_size;
                   fragment_length = (if left < avail then left else avail);
                   end = (left = fragment_length);
                   type = fragment_type (recycle_log_files w1) begin end
               in (case EmitPhysicalRecord w1 type ptr fragment_length crc of
                     Inl a \<Rightarrow> Inl a
                   | Inr (s, w2) \<Rightarrow>
                       Inr (s, w2, drop (unat fragment_length) ptr, left - fragment_length)))"

text \<open>
  The loop \<^verbatim>\<open>do { ... } while (s.ok() && left > 0)\<close> and the three entry points.
  The slice is the list \<open>sl\<close> of its bytes, its size the length of the list as a
  \<^verbatim>\<open>size_t\<close>. \<^verbatim>\<open>calculate_crc\<close> is not among the sources: the one-argument form takes
  it as a parameter.
\<close>

function add_record_loop ::
  "Writer \<Rightarrow> byte list \<Rightarrow> size_t \<Rightarrow> bool \<Rightarrow> uint32 \<Rightarrow> abort + (Status \<times> Writer)" where
  "add_record_loop w ptr left begin crc =
     (case loop_body w ptr left begin crc of
        Inl a \<Rightarrow> Inl a
      | Inr (s, w', ptr', left') \<Rightarrow>
          if s = OK \<and> left' > 0 then add_record_loop w' ptr' left' False crc
          else Inr (s, w'))"
  by pat_completeness auto

text \<open>
  The loop ends: the count \<open>left\<close> goes down with every fragment that is not empty, and an
  empty fragment that is not the last one leaves the cursor at the end of the block, where
  the next iteration opens a block with room for payload.
\<close>

termination add_record_loop
proof (relation "measures [\<lambda>(w, ptr, left, begin, crc). unat left,
    \<lambda>(w, ptr, left, begin, crc). if block_offset w = kBlockSize then 0 else 1]")
  show "wf (measures [\<lambda>(w, ptr, left, begin, crc). unat left,
    \<lambda>(w, ptr, left, begin, crc). if block_offset w = kBlockSize then 0 else 1])"
    by simp
next
  fix w :: Writer and ptr :: "byte list" and left :: size_t and b :: bool and crc :: uint32
    and r s y w' ya ptr' left'
  assume "loop_body w ptr left b crc = Inr r" "(s, y) = r" "(w', ya) = y" "(ptr', left') = ya"
    "s = OK \<and> 0 < left'"
  then have body: "loop_body w ptr left b crc = Inr (OK, w', ptr', left')" and pos: "0 < left'"
    by auto
  define hs where "hs = (if recycle_log_files w then kRecyclableHeaderSize else kHeaderSize)"
  from body obtain w1 where sw: "switch_block w hs = Inr w1"
    by (auto simp: loop_body_def hs_def Let_def split: sum.splits)
  define avail where "avail = kBlockSize - block_offset w1 - word_of_int hs"
  define n where "n = (if left < avail then left else avail)"
  from body sw obtain t where
    em: "EmitPhysicalRecord w1 t ptr n crc = Inr (OK, w')" and
    t: "t = fragment_type (recycle_log_files w1) b (left = n)" and
    l: "left' = left - n"
    by (auto simp: loop_body_def hs_def avail_def n_def Let_def split: sum.splits if_splits)
  have rec: "recycle_log_files w1 = recycle_log_files w"
    using sw by (auto simp: switch_block_def Let_def split: if_splits)
  have nle: "n \<le> left"
    using n_def by auto
  have "unat left' < unat left \<or>
    (left' = left \<and> block_offset w' = kBlockSize \<and> block_offset w \<noteq> kBlockSize)"
  proof (cases "n = 0")
    case False
    then have "unat n \<noteq> 0"
      by (simp add: unat_eq_0)
    moreover have "unat (left - n) = unat left - unat n"
      using nle by (rule unat_sub)
    moreover have "unat n \<le> unat left"
      using nle by (simp add: word_le_nat_alt)
    ultimately show ?thesis
      using l by simp
  next
    case True
    with l have ll: "left' = left"
      by simp
    with pos True have av: "avail = 0"
      by (auto simp: n_def split: if_splits)
    have "block_offset w' = block_offset w1 + word_of_int hs"
      using em True t rec
      by (auto simp: EmitPhysicalRecord_def Let_def append2_def fragment_type_def hs_def
          kHeaderSize_def kRecyclableHeaderSize_def split: if_splits)
    with av have a: "block_offset w' = kBlockSize"
      by (simp add: avail_def algebra_simps)
    have "block_offset w \<noteq> kBlockSize"
    proof
      assume "block_offset w = kBlockSize"
      then have "block_offset w1 = 0"
        using sw
        by (auto simp: switch_block_def Let_def hs_def kHeaderSize_def kRecyclableHeaderSize_def
            split: if_splits)
      with av show False
        by (simp add: avail_def hs_def kHeaderSize_def kRecyclableHeaderSize_def kBlockSize_def
            split: if_splits)
    qed
    with a ll show ?thesis
      by simp
  qed
  then show "((w', ptr', left', False, crc), (w, ptr, left, b, crc)) \<in>
    measures [\<lambda>(w, ptr, left, begin, crc). unat left,
      \<lambda>(w, ptr, left, begin, crc). if block_offset w = kBlockSize then 0 else 1]"
    by auto
qed

definition add_record_with_crc :: "Writer \<Rightarrow> byte list \<Rightarrow> uint32 \<Rightarrow> abort + (Status \<times> Writer)" where
  "add_record_with_crc w sl crc = add_record_loop w sl (word_of_nat (length sl)) True crc"

definition AddRecord :: "Writer \<Rightarrow> byte list \<Rightarrow> uint32 \<Rightarrow> abort + (Status \<times> Writer)" where
  "AddRecord w sl crc = add_record_with_crc w sl crc"

definition AddRecord1 ::
  "(byte list \<Rightarrow> uint32) \<Rightarrow> Writer \<Rightarrow> byte list \<Rightarrow> abort + (Status \<times> Writer)" where
  "AddRecord1 calculate_crc w sl = AddRecord w sl (calculate_crc sl)"

subsection \<open>What a call leaves in the sink\<close>

text \<open>
  The calls that a run from \<open>w\<close> to \<open>w'\<close> added to the log of the sink, and the physical
  records among them: the header and the payload of every two-buffer \<^verbatim>\<open>append\<close>, in order.
\<close>

definition new_calls :: "Writer \<Rightarrow> Writer \<Rightarrow> (append_call \<times> int) list" where
  "new_calls w w' = drop (length (calls (dest w))) (calls (dest w'))"

fun records_of :: "(append_call \<times> int) list \<Rightarrow> (byte list \<times> byte list) list" where
  "records_of [] = []"
| "records_of ((Append1 d, r) # cs) = records_of cs"
| "records_of ((Append2 h p, r) # cs) = (h, p) # records_of cs"

text \<open>The header that \<^verbatim>\<open>EmitPhysicalRecord\<close> formats, and the header size of a mode.\<close>

definition header_bytes :: "Writer \<Rightarrow> RecordType \<Rightarrow> size_t \<Rightarrow> uint32 \<Rightarrow> byte list" where
  "header_bytes w t n crc =
     EncodeFixed32 crc @ [ucast (n AND 0xff), ucast (drop_bit 8 n), word_of_nat (type_code t)]
     @ (if type_code t < type_code kRecyclableFullType then []
        else EncodeFixed32 (ucast (log_number w)))"

definition mode_header_size :: "Writer \<Rightarrow> int" where
  "mode_header_size w = (if recycle_log_files w then kRecyclableHeaderSize else kHeaderSize)"

text \<open>What a reader decodes from the two length bytes of a header.\<close>

definition length_field :: "byte list \<Rightarrow> size_t" where
  "length_field h = ucast (h ! 4) OR push_bit 8 (ucast (h ! 5))"

text \<open>A writer for the examples: a fresh sink with the given return codes, the cursor moved.\<close>

definition example_writer :: "bool \<Rightarrow> size_t \<Rightarrow> (nat \<Rightarrow> int) \<Rightarrow> Writer" where
  "example_writer recycle off codes =
     (Writer_new \<lparr>calls = [], outcome = codes\<rparr> 0x1234567890 recycle False)\<lparr>block_offset := off\<rparr>"

text \<open>
  The cursor of every state that the constructor and \<^verbatim>\<open>AddRecord\<close> can reach lies within
  the block; \<open>cursor_ok\<close> is that condition.
\<close>

definition cursor_ok :: "Writer \<Rightarrow> bool" where
  "cursor_ok w = (block_offset w \<le> kBlockSize)"

inductive reachable :: "Writer \<Rightarrow> bool" where
  constructed: "reachable (Writer_new d n recycle alloc)"
| added: "reachable w \<Longrightarrow> AddRecord w sl crc = Inr (s, w') \<Longrightarrow> reachable w'"

text \<open>
  A physical record of the writer \<open>w\<close> for the checksum \<open>crc\<close>: its header is one that
  \<^verbatim>\<open>EmitPhysicalRecord\<close> formats for a type of the mode of \<open>w\<close> and a length \<open>n\<close> that
  fits two bytes, and its payload has \<open>n\<close> bytes.
\<close>

definition record_ok :: "Writer \<Rightarrow> uint32 \<Rightarrow> byte list \<times> byte list \<Rightarrow> bool" where
  "record_ok w crc hp =
     (\<exists>b e n. fst hp = header_bytes w (fragment_type (recycle_log_files w) b e) n crc
        \<and> n \<le> 0xffff \<and> length (snd hp) = unat n)"

text \<open>Return codes for the examples: a sink that accepts every call, and one that fails one.\<close>

definition accepting :: "nat \<Rightarrow> int" where
  "accepting i = 0"

definition fails_at :: "nat \<Rightarrow> nat \<Rightarrow> int" where
  "fails_at k i = (if i = k then 5 else 0)"

text \<open>
  A call that the writer counts as written: the filler, whose result it drops, and a
  physical record that the sink accepted. \<open>bytes_written\<close> adds up their bytes.
\<close>

fun accepted :: "append_call \<times> int \<Rightarrow> bool" where
  "accepted (Append1 d, r) = True"
| "accepted (Append2 h p, r) = (r = 0)"

fun bytes_written :: "(append_call \<times> int) list \<Rightarrow> nat" where
  "bytes_written [] = 0"
| "bytes_written ((Append1 d, r) # cs) = length d + bytes_written cs"
| "bytes_written ((Append2 h p, r) # cs) =
     (if r = 0 then length h + length p else 0) + bytes_written cs"

text \<open>
  The filler that the start of an iteration appends from the state \<open>w\<close>: \<open>leftover\<close>
  zero bytes when \<open>leftover\<close> is positive and less than the header size, else nothing.
\<close>

definition padding_of :: "Writer \<Rightarrow> (append_call \<times> int) list" where
  "padding_of w =
     (let leftover = sint (kBlockSize - block_offset w)
      in if leftover < mode_header_size w \<and> 0 < leftover
         then [(Append1 (replicate (nat leftover) 0), outcome (dest w) (length (calls (dest w))))]
         else [])"

section \<open>Properties\<close>

subsection \<open>One iteration\<close>

declare add_record_loop.simps [simp del]

lemmas writer_eval = AddRecord_def add_record_with_crc_def add_record_loop.simps loop_body_def
  switch_block_def EmitPhysicalRecord_def Let_def kBlockSize_def kHeaderSize_def
  kRecyclableHeaderSize_def fragment_type_def append1_def append2_def EncodeFixed32_def
  trailer_literal_def example_writer_def Writer_new_def new_calls_def

lemma records_of_append: "records_of (xs @ ys) = records_of xs @ records_of ys"
  by (induction xs rule: records_of.induct) auto

lemma EmitPhysicalRecord_Inr:
  assumes "EmitPhysicalRecord w t ptr n crc = Inr (s, w')"
  shows "n \<le> 0xffff"
    and "block_offset w + (if type_code t < 5 then 7 else 11) + n \<le> kBlockSize"
    and "\<exists>r. r = outcome (dest w) (length (calls (dest w))) \<and>
          s = (if r = 0 then OK else IOError) \<and>
          w' = w\<lparr>dest := (dest w)\<lparr>calls := calls (dest w) @
                    [(Append2 (header_bytes w t n crc) (take (unat n) ptr), r)]\<rparr>,
                  block_offset := (if r = 0
                    then block_offset w + ((if type_code t < 5 then 7 else 11) + n)
                    else block_offset w)\<rparr>"
  using assms
  by (auto simp: EmitPhysicalRecord_def Let_def append2_def kHeaderSize_def
      kRecyclableHeaderSize_def header_bytes_def split: if_splits)

lemma switch_block_Inr:
  assumes "switch_block w hs = Inr w1"
  shows "0 \<le> sint (kBlockSize - block_offset w)"
    and "\<exists>fill. w1 = w\<lparr>dest := (dest w)\<lparr>calls := calls (dest w) @ fill\<rparr>,
            block_offset := (if sint (kBlockSize - block_offset w) < hs then 0
              else block_offset w)\<rparr>
         \<and> fill = (if 0 < sint (kBlockSize - block_offset w) \<and>
                      sint (kBlockSize - block_offset w) < hs
               then [(Append1 (take (nat (sint (kBlockSize - block_offset w))) trailer_literal),
                      outcome (dest w) (length (calls (dest w))))]
               else [])"
  using assms
  by (auto simp: switch_block_def Let_def append1_def split: if_splits)

lemma loop_body_Inr:
  assumes "loop_body w ptr left b crc = Inr (s, w2, ptr', left')"
  obtains w1 n where
    "switch_block w (mode_header_size w) = Inr w1"
    "mode_header_size w \<le> sint (kBlockSize - block_offset w1)"
    "n = (if left < kBlockSize - block_offset w1 - word_of_int (mode_header_size w) then left
          else kBlockSize - block_offset w1 - word_of_int (mode_header_size w))"
    "EmitPhysicalRecord w1 (fragment_type (recycle_log_files w1) b (left = n)) ptr n crc
       = Inr (s, w2)"
    "ptr' = drop (unat n) ptr"
    "left' = left - n"
  using assms
  by (auto simp: loop_body_def mode_header_size_def Let_def split: sum.splits if_splits)

lemma loop_body_calls:
  assumes "loop_body w ptr left b crc = Inr (s, w2, ptr', left')"
  shows "\<exists>fill h n r. calls (dest w2) = calls (dest w) @ fill @ [(Append2 h (take (unat n) ptr), r)]
     \<and> records_of fill = [] \<and> n \<le> left \<and> ptr' = drop (unat n) ptr \<and> left' = left - n"
proof -
  from assms obtain w1 n where
    sw: "switch_block w (mode_header_size w) = Inr w1" and
    n: "n = (if left < kBlockSize - block_offset w1 - word_of_int (mode_header_size w) then left
          else kBlockSize - block_offset w1 - word_of_int (mode_header_size w))" and
    em: "EmitPhysicalRecord w1 (fragment_type (recycle_log_files w1) b (left = n)) ptr n crc
       = Inr (s, w2)" and
    p: "ptr' = drop (unat n) ptr" and
    l: "left' = left - n"
    by (rule loop_body_Inr)
  have nle: "n \<le> left"
    using n by auto
  from switch_block_Inr(2)[OF sw] obtain fill where
    f: "calls (dest w1) = calls (dest w) @ fill" "records_of fill = []"
    by (auto split: if_splits)
  from EmitPhysicalRecord_Inr(3)[OF em] obtain h r where
    "calls (dest w2) = calls (dest w1) @ [(Append2 h (take (unat n) ptr), r)]"
    by (auto split: if_splits)
  with f nle p l show ?thesis
    by auto
qed

subsection \<open>Arithmetic of the cursor\<close>

lemma sint_64: "sint (x::64 word) = (if uint x < 2^63 then uint x else uint x - 2^64)"
proof -
  have b: "0 \<le> uint x" "uint x < 2^64"
    using uint_lt2p [of x] by simp_all
  have "sint x = (uint x + 2^63) mod 2^64 - 2^63"
    by (simp add: sint_uint signed_take_bit_eq_take_bit_shift take_bit_eq_mod)
  moreover have "uint x < 2^63 \<Longrightarrow> (uint x + 2^63) mod 2^64 = uint x + 2^63"
    using b by (simp add: mod_pos_pos_trivial)
  moreover have "\<not> uint x < 2^63 \<Longrightarrow> (uint x + 2^63) mod 2^64 = uint x + 2^63 - 2^64"
  proof -
    assume "\<not> uint x < 2^63"
    then have "0 \<le> uint x + 2^63 - 2^64" "uint x + 2^63 - 2^64 < 2^64" using b by simp_all
    then have "(uint x + 2^63 - 2^64) mod 2^64 = uint x + 2^63 - 2^64"
      by (simp add: mod_pos_pos_trivial)
    then show ?thesis by (metis mod_diff_right_eq mod_self diff_zero)
  qed
  ultimately show ?thesis by simp
qed

lemma sint_64_nat: "unat (x::64 word) < 2^63 \<Longrightarrow> sint x = int (unat x)"
proof -
  assume a: "unat x < 2^63"
  have "int (unat x) = uint x" by simp
  moreover from a have "int (unat x) < int (2^63)" by (simp only: of_nat_less_iff)
  ultimately have "uint x < 2^63" by simp
  then have "sint x = uint x" by (simp only: sint_64 if_True)
  then show ?thesis by simp
qed

lemma leftover_ok:
  assumes "cursor_ok w"
  shows "sint (kBlockSize - block_offset w) = int (unat (kBlockSize - block_offset w))"
    and "unat (kBlockSize - block_offset w) = 32768 - unat (block_offset w)"
    and "unat (block_offset w) \<le> 32768"
proof -
  have k: "unat kBlockSize = 32768" by (simp add: kBlockSize_def)
  show le: "unat (block_offset w) \<le> 32768" using assms k by (simp add: word_le_nat_alt cursor_ok_def)
  have "unat (kBlockSize - block_offset w) = unat kBlockSize - unat (block_offset w)"
    using assms unfolding cursor_ok_def by (rule unat_sub)
  then show u: "unat (kBlockSize - block_offset w) = 32768 - unat (block_offset w)"
    using k by simp
  then have "unat (kBlockSize - block_offset w) < 2^63" by simp
  then show "sint (kBlockSize - block_offset w) = int (unat (kBlockSize - block_offset w))"
    by (rule sint_64_nat)
qed

lemma take_trailer_literal: "k \<le> 11 \<Longrightarrow> take k trailer_literal = replicate k 0"
  by (simp add: trailer_literal_def min_def)

lemma switch_block_ok:
  assumes "cursor_ok w" and "hs = 7 \<or> hs = 11"
  shows "switch_block w hs =
    Inr (if 32768 - unat (block_offset w) < nat hs
         then (if unat (block_offset w) = 32768 then w\<lparr>block_offset := 0\<rparr>
               else w\<lparr>dest := snd (append1 (dest w) (replicate (32768 - unat (block_offset w)) 0)),
                      block_offset := 0\<rparr>)
         else w)"
proof -
  obtain k where k: "unat (block_offset w) = k"
    by simp
  note l = leftover_ok[OF assms(1)]
  have le: "k \<le> 32768"
    using l(3) k by simp
  have s: "sint (kBlockSize - block_offset w) = int (32768 - k)"
    using l(1) l(2) k by (simp only:)
  consider "nat hs \<le> 32768 - k" | "k = 32768" | "32768 - k < nat hs" "k < 32768"
    using le by linarith
  then show ?thesis
  proof cases
    case 1
    then have "\<not> int (32768 - k) < hs"
      by linarith
    then show ?thesis
      using 1 by (simp add: switch_block_def Let_def s k)
  next
    case 2
    then show ?thesis
      using assms(2) by (auto simp: switch_block_def Let_def s k)
  next
    case 3
    then have "int (32768 - k) < hs" "0 < int (32768 - k)" "hs \<le> 11" "32768 - k \<le> 11"
      using assms(2) by auto
    moreover have "nat (32768 - int k) = 32768 - k"
      using le by linarith
    ultimately show ?thesis
      using 3 by (simp add: switch_block_def Let_def s k take_trailer_literal)
  qed
qed

lemma word_sum3_le:
  fixes x n :: size_t
  assumes "unat x + h + unat n \<le> 32768" and "h \<le> 11"
  shows "unat (x + (word_of_nat h + n)) = unat x + h + unat n"
    and "x + word_of_nat h + n \<le> 32768"
    and "n \<le> 0xffff"
proof -
  have h: "unat (word_of_nat h :: size_t) = h"
    using assms(2) by (simp add: unat_of_nat take_bit_nat_eq_self)
  have "unat (word_of_nat h + n) = h + unat n"
    using assms h by (simp add: unat_add_lem[THEN iffD1])
  then show a: "unat (x + (word_of_nat h + n)) = unat x + h + unat n"
    using assms by (simp add: unat_add_lem[THEN iffD1])
  then show "x + word_of_nat h + n \<le> 32768"
    using assms(1) by (simp add: word_le_nat_alt add.assoc)
  show "n \<le> 0xffff"
    using assms(1) by (simp add: word_le_nat_alt)
qed

lemma EmitPhysicalRecord_ok:
  assumes "unat (block_offset w) + h + unat n \<le> 32768"
    and "h = (if type_code t < 5 then 7 else 11)"
  shows "EmitPhysicalRecord w t ptr n crc =
    Inr (if outcome (dest w) (length (calls (dest w))) = 0 then OK else IOError,
      w\<lparr>dest := (dest w)\<lparr>calls := calls (dest w) @
              [(Append2 (header_bytes w t n crc) (take (unat n) ptr),
                outcome (dest w) (length (calls (dest w))))]\<rparr>,
        block_offset := (if outcome (dest w) (length (calls (dest w))) = 0
          then block_offset w + (word_of_nat h + n) else block_offset w)\<rparr>)"
proof -
  have "h \<le> 11" using assms(2) by simp
  note f = word_sum3_le[OF assms(1) this]
  show ?thesis
    using f(2) f(3) assms(2)
    by (auto simp: EmitPhysicalRecord_def Let_def append2_def kHeaderSize_def
      kRecyclableHeaderSize_def kBlockSize_def header_bytes_def split: if_splits)
qed

lemma fragment_type_code:
  "(type_code (fragment_type r b e) < 5) = (\<not> r)"
  by (simp add: fragment_type_def)

lemma loop_body_ok:
  assumes "cursor_ok w"
  obtains w1 n where
    "switch_block w (mode_header_size w) = Inr w1"
    "unat (block_offset w1) + nat (mode_header_size w) \<le> 32768"
    "unat n = min (unat left) (32768 - unat (block_offset w1) - nat (mode_header_size w))"
    "loop_body w ptr left b crc =
      Inr (if outcome (dest w1) (length (calls (dest w1))) = 0 then OK else IOError,
        w1\<lparr>dest := (dest w1)\<lparr>calls := calls (dest w1) @
              [(Append2 (header_bytes w (fragment_type (recycle_log_files w) b (left = n)) n crc)
                  (take (unat n) ptr),
                outcome (dest w1) (length (calls (dest w1))))]\<rparr>,
          block_offset := (if outcome (dest w1) (length (calls (dest w1))) = 0
            then block_offset w1 + (word_of_nat (nat (mode_header_size w)) + n)
            else block_offset w1)\<rparr>,
        drop (unat n) ptr, left - n)"
    "unat (block_offset w1 + (word_of_nat (nat (mode_header_size w)) + n)) =
       unat (block_offset w1) + nat (mode_header_size w) + unat n"
proof -
  define hs where "hs = mode_header_size w"
  define H where "H = nat hs"
  have hs: "hs = 7 \<or> hs = 11"
    by (simp add: hs_def mode_header_size_def kHeaderSize_def kRecyclableHeaderSize_def)
  then have H: "H = 7 \<or> H = 11" "hs = int H"
    by (auto simp: H_def)
  define w1 where "w1 = (if 32768 - unat (block_offset w) < nat hs
         then (if unat (block_offset w) = 32768 then w\<lparr>block_offset := 0\<rparr>
               else w\<lparr>dest := snd (append1 (dest w) (replicate (32768 - unat (block_offset w)) 0)),
                      block_offset := 0\<rparr>)
         else w)"
  have sw: "switch_block w hs = Inr w1"
    unfolding w1_def using assms hs by (rule switch_block_ok)
  have rec: "recycle_log_files w1 = recycle_log_files w" "log_number w1 = log_number w"
    by (simp_all add: w1_def)
  have off1: "unat (block_offset w1) + H \<le> 32768"
    using leftover_ok(3)[OF assms] H(1) by (auto simp: w1_def H_def)
  then have ok1: "cursor_ok w1"
    by (simp add: cursor_ok_def word_le_nat_alt kBlockSize_def)
  note l1 = leftover_ok[OF ok1]
  have "sint (kBlockSize - block_offset w1) = int (32768 - unat (block_offset w1))"
    by (simp only: l1(1) l1(2))
  then have a1: "hs \<le> sint (kBlockSize - block_offset w1)"
    using off1 H(2) by linarith
  define avail where "avail = kBlockSize - block_offset w1 - word_of_int hs"
  have hw: "(word_of_int hs :: size_t) = word_of_nat H" "unat (word_of_nat H :: size_t) = H"
    using H by auto
  have "word_of_nat H \<le> kBlockSize - block_offset w1"
    using off1 l1(2) hw(2) by (simp add: word_le_nat_alt)
  then have "unat (kBlockSize - block_offset w1 - word_of_nat H) = unat (kBlockSize - block_offset w1) - H"
    using hw(2) by (simp add: unat_sub)
  then have av: "unat avail = 32768 - unat (block_offset w1) - H"
    using l1(2) hw(1) by (simp add: avail_def)
  define n where "n = (if left < avail then left else avail)"
  have un: "unat n = min (unat left) (32768 - unat (block_offset w1) - H)"
    using av by (auto simp: n_def word_less_nat_alt)
  then have pre: "unat (block_offset w1) + H + unat n \<le> 32768"
    using off1 by linarith
  have th: "H = (if type_code (fragment_type (recycle_log_files w1) b (left = n)) < 5 then 7 else 11)"
    using rec by (simp add: fragment_type_code H_def hs_def mode_header_size_def
        kHeaderSize_def kRecyclableHeaderSize_def)
  note em = EmitPhysicalRecord_ok[OF pre th, of ptr crc]
  have hb: "header_bytes w1 t n crc = header_bytes w t n crc" for t
    using rec by (simp add: header_bytes_def)
  have body: "loop_body w ptr left b crc =
      Inr (if outcome (dest w1) (length (calls (dest w1))) = 0 then OK else IOError,
        w1\<lparr>dest := (dest w1)\<lparr>calls := calls (dest w1) @
              [(Append2 (header_bytes w (fragment_type (recycle_log_files w) b (left = n)) n crc)
                  (take (unat n) ptr),
                outcome (dest w1) (length (calls (dest w1))))]\<rparr>,
          block_offset := (if outcome (dest w1) (length (calls (dest w1))) = 0
            then block_offset w1 + (word_of_nat H + n)
            else block_offset w1)\<rparr>,
        drop (unat n) ptr, left - n)"
    using sw a1 em rec
    by (simp add: loop_body_def Let_def hs_def[unfolded mode_header_size_def, symmetric]
        avail_def[symmetric] n_def[symmetric] hb)
  have "H \<le> 11" using H(1) by auto
  from word_sum3_le(1)[OF pre this]
  have sum: "unat (block_offset w1 + (word_of_nat H + n)) = unat (block_offset w1) + H + unat n" .
  show ?thesis
    by (rule that[OF sw[unfolded hs_def] off1[unfolded H_def hs_def] un[unfolded H_def hs_def]
          body[unfolded H_def hs_def] sum[unfolded H_def hs_def]])
qed

subsection \<open>Every record of a call\<close>

lemma loop_body_records:
  assumes "loop_body w ptr left b crc = Inr (s, w2, ptr', left')" and "unat left \<le> length ptr"
  shows "\<exists>cs. calls (dest w2) = calls (dest w) @ cs \<and> outcome (dest w2) = outcome (dest w) \<and>
     log_number w2 = log_number w \<and> recycle_log_files w2 = recycle_log_files w \<and>
     list_all (record_ok w crc) (records_of cs) \<and> unat left' \<le> length ptr'"
proof -
  from assms(1) obtain w1 n where
    sw: "switch_block w (mode_header_size w) = Inr w1" and
    n: "n = (if left < kBlockSize - block_offset w1 - word_of_int (mode_header_size w) then left
          else kBlockSize - block_offset w1 - word_of_int (mode_header_size w))" and
    em: "EmitPhysicalRecord w1 (fragment_type (recycle_log_files w1) b (left = n)) ptr n crc
       = Inr (s, w2)" and
    p: "ptr' = drop (unat n) ptr" and
    l: "left' = left - n"
    by (rule loop_body_Inr)
  have "n \<le> left"
    using n by auto
  then have un: "unat n \<le> unat left" "unat left' = unat left - unat n"
    using l by (simp_all add: word_le_nat_alt unat_sub)
  then have len: "length (take (unat n) ptr) = unat n" "unat left' \<le> length ptr'"
    using assms(2) p by simp_all
  from switch_block_Inr(2)[OF sw] obtain fill where
    f: "calls (dest w1) = calls (dest w) @ fill" "records_of fill = []"
      "outcome (dest w1) = outcome (dest w)" "log_number w1 = log_number w"
      "recycle_log_files w1 = recycle_log_files w"
    by (auto split: if_splits)
  from EmitPhysicalRecord_Inr(3)[OF em] obtain r where
    e: "calls (dest w2) = calls (dest w1) @
        [(Append2 (header_bytes w1 (fragment_type (recycle_log_files w1) b (left = n)) n crc)
           (take (unat n) ptr), r)]"
      "outcome (dest w2) = outcome (dest w1)" "log_number w2 = log_number w1"
      "recycle_log_files w2 = recycle_log_files w1"
    by (auto split: if_splits)
  have hb: "header_bytes w1 t n crc = header_bytes w t n crc" for t
    using f(4) by (simp add: header_bytes_def)
  have "record_ok w crc (header_bytes w (fragment_type (recycle_log_files w) b (left = n)) n crc,
      take (unat n) ptr)"
    unfolding record_ok_def fst_conv snd_conv
    using EmitPhysicalRecord_Inr(1)[OF em] len(1)
    by (intro exI[of _ b] exI[of _ "left = n"] exI[of _ n]) simp
  with f e hb len(2) show ?thesis
    by (simp add: records_of_append)
qed

lemma add_record_loop_records:
  assumes "add_record_loop w ptr left b crc = Inr (s, w')" and "unat left \<le> length ptr"
  shows "\<exists>cs. calls (dest w') = calls (dest w) @ cs \<and> outcome (dest w') = outcome (dest w) \<and>
     log_number w' = log_number w \<and> recycle_log_files w' = recycle_log_files w \<and>
     list_all (record_ok w crc) (records_of cs)"
  using assms
proof (induction w ptr left b crc arbitrary: s w' rule: add_record_loop.induct)
  case (1 w ptr left b crc)
  from "1.prems"(1) obtain s2 w2 ptr' left' where
    body: "loop_body w ptr left b crc = Inr (s2, w2, ptr', left')"
    by (auto simp: add_record_loop.simps[of w ptr left b crc] split: sum.splits)
  from loop_body_records[OF body "1.prems"(2)] obtain cs where
    c: "calls (dest w2) = calls (dest w) @ cs" "outcome (dest w2) = outcome (dest w)"
      "log_number w2 = log_number w" "recycle_log_files w2 = recycle_log_files w"
      "list_all (record_ok w crc) (records_of cs)" and lp: "unat left' \<le> length ptr'"
    by blast
  show ?case
  proof (cases "s2 = OK \<and> 0 < left'")
    case True
    with "1.prems"(1) body have run: "add_record_loop w2 ptr' left' False crc = Inr (s, w')"
      by (simp add: add_record_loop.simps[of w ptr left b crc])
    from "1.IH"[OF body refl refl refl True run lp] obtain cs' where
      c': "calls (dest w') = calls (dest w2) @ cs'" "outcome (dest w') = outcome (dest w2)"
        "log_number w' = log_number w2" "recycle_log_files w' = recycle_log_files w2"
        "list_all (record_ok w2 crc) (records_of cs')"
      by blast
    have "record_ok w2 crc = record_ok w crc"
      using c(3) c(4) by (simp add: record_ok_def header_bytes_def fun_eq_iff)
    with c c' show ?thesis
      by (simp add: records_of_append)
  next
    case False
    with "1.prems"(1) body have "w' = w2"
      by (auto simp: add_record_loop.simps[of w ptr left b crc] split: if_splits)
    with c show ?thesis
      by simp
  qed
qed

lemma loop_body_total:
  assumes "cursor_ok w"
  shows "\<exists>s w2 ptr' left'. loop_body w ptr left b crc = Inr (s, w2, ptr', left') \<and> cursor_ok w2"
proof -
  from loop_body_ok[OF assms, of left ptr b crc] obtain w1 n where
    o: "unat (block_offset w1) + nat (mode_header_size w) \<le> 32768"
    and un: "unat n = min (unat left) (32768 - unat (block_offset w1) - nat (mode_header_size w))"
    and body: "loop_body w ptr left b crc =
      Inr (if outcome (dest w1) (length (calls (dest w1))) = 0 then OK else IOError,
        w1\<lparr>dest := (dest w1)\<lparr>calls := calls (dest w1) @
              [(Append2 (header_bytes w (fragment_type (recycle_log_files w) b (left = n)) n crc)
                  (take (unat n) ptr),
                outcome (dest w1) (length (calls (dest w1))))]\<rparr>,
          block_offset := (if outcome (dest w1) (length (calls (dest w1))) = 0
            then block_offset w1 + (word_of_nat (nat (mode_header_size w)) + n)
            else block_offset w1)\<rparr>,
        drop (unat n) ptr, left - n)"
    and sum: "unat (block_offset w1 + (word_of_nat (nat (mode_header_size w)) + n)) =
       unat (block_offset w1) + nat (mode_header_size w) + unat n"
    by blast
  have "unat (block_offset w1 + (word_of_nat (nat (mode_header_size w)) + n)) \<le> 32768"
    using o un sum by linarith
  moreover have "unat (block_offset w1) \<le> 32768"
    using o by linarith
  ultimately show ?thesis
    using body by (simp add: cursor_ok_def word_le_nat_alt kBlockSize_def)
qed

lemma add_record_loop_total:
  assumes "cursor_ok w"
  shows "\<exists>s w'. add_record_loop w ptr left b crc = Inr (s, w') \<and> cursor_ok w'"
  using assms
proof (induction w ptr left b crc rule: add_record_loop.induct)
  case (1 w ptr left b crc)
  from loop_body_total[OF "1.prems", of ptr left b crc] obtain s2 w2 ptr' left' where
    body: "loop_body w ptr left b crc = Inr (s2, w2, ptr', left')" and ok2: "cursor_ok w2"
    by blast
  show ?case
  proof (cases "s2 = OK \<and> 0 < left'")
    case True
    from "1.IH"[OF body refl refl refl True ok2] obtain s w' where
      "add_record_loop w2 ptr' left' False crc = Inr (s, w')" "cursor_ok w'"
      by blast
    with True body show ?thesis
      by (simp add: add_record_loop.simps[of w ptr left b crc])
  next
    case False
    with body ok2 show ?thesis
      by (auto simp: add_record_loop.simps[of w ptr left b crc])
  qed
qed

subsection \<open>The payload is kept\<close>

lemma add_record_loop_payload:
  assumes "add_record_loop w ptr left b crc = Inr (OK, w')" and "unat left \<le> length ptr"
  shows "\<exists>cs. calls (dest w') = calls (dest w) @ cs \<and>
     concat (map snd (records_of cs)) = take (unat left) ptr"
  using assms
proof (induction w ptr left b crc arbitrary: w' rule: add_record_loop.induct)
  case (1 w ptr left b crc)
  from "1.prems"(1) obtain s w2 ptr' left' where
    body: "loop_body w ptr left b crc = Inr (s, w2, ptr', left')"
    by (auto simp: add_record_loop.simps[of w ptr left b crc] split: sum.splits)
  from loop_body_calls[OF body] obtain fill h n r where
    c: "calls (dest w2) = calls (dest w) @ fill @ [(Append2 h (take (unat n) ptr), r)]" and
    f: "records_of fill = []" and nle: "n \<le> left" and p: "ptr' = drop (unat n) ptr" and
    l: "left' = left - n"
    by blast
  have un: "unat left' = unat left - unat n" "unat n \<le> unat left"
    using nle l by (simp_all add: unat_sub word_le_nat_alt)
  show ?case
  proof (cases "s = OK \<and> 0 < left'")
    case True
    with "1.prems"(1) body have run: "add_record_loop w2 ptr' left' False crc = Inr (OK, w')"
      by (simp add: add_record_loop.simps[of w ptr left b crc])
    have "unat left' \<le> length ptr'"
      using un p "1.prems"(2) by simp
    from "1.IH"[OF body refl refl refl True run this] obtain cs where
      cs: "calls (dest w') = calls (dest w2) @ cs"
        "concat (map snd (records_of cs)) = take (unat left') ptr'"
      by blast
    have "take (unat n) ptr @ take (unat left - unat n) (drop (unat n) ptr) = take (unat left) ptr"
      using un(2) by (metis le_add_diff_inverse take_add)
    with cs c f p un show ?thesis
      by (simp add: records_of_append)
  next
    case False
    with "1.prems"(1) body have e: "s = OK" "w' = w2" "left' = 0"
      by (auto simp: add_record_loop.simps[of w ptr left b crc] word_gt_0 split: if_splits)
    then have "unat n = unat left"
      using un by auto
    with c f e show ?thesis
      by (simp add: records_of_append)
  qed
qed

text \<open>
  C1. For every logical record \<open>sl\<close> (a slice, so shorter than \<open>2 ^ 64\<close> bytes; the empty
  one too) and every state of the writer, if \<^verbatim>\<open>AddRecord\<close> returns success, then the
  payloads of the physical records it handed to the sink, concatenated in order, are
  \<open>sl\<close>.
\<close>

theorem AddRecord_round_trip:
  assumes "length sl < 2 ^ 64" and "AddRecord w sl crc = Inr (OK, w')"
  shows "concat (map snd (records_of (new_calls w w'))) = sl"
proof -
  have u: "unat (word_of_nat (length sl) :: size_t) = length sl"
    using assms(1) by (simp add: unat_of_nat take_bit_nat_eq_self)
  from assms(2) have "add_record_loop w sl (word_of_nat (length sl)) True crc = Inr (OK, w')"
    by (simp add: AddRecord_def add_record_with_crc_def)
  from add_record_loop_payload[OF this] u obtain cs where
    "calls (dest w') = calls (dest w) @ cs" "concat (map snd (records_of cs)) = sl"
    by auto
  then show ?thesis
    by (simp add: new_calls_def)
qed

theorem AddRecord_round_trip_witness:
  "length [1, 2, 3, 4, 5 :: byte] < 2 ^ 64 \<and>
   AddRecord (example_writer False 32759 (\<lambda>i. 0)) [1, 2, 3, 4, 5] 77 =
     Inr (OK, (example_writer False 32759 (\<lambda>i. 0))
       \<lparr>dest := \<lparr>calls = [(Append2 [77, 0, 0, 0, 2, 0, 2] [1, 2], 0),
                                (Append2 [77, 0, 0, 0, 3, 0, 4] [3, 4, 5], 0)],
                       outcome = (\<lambda>i. 0)\<rparr>,
         block_offset := 10\<rparr>) \<and>
   concat (map snd (records_of (new_calls (example_writer False 32759 (\<lambda>i. 0))
     ((example_writer False 32759 (\<lambda>i. 0))
       \<lparr>dest := \<lparr>calls = [(Append2 [77, 0, 0, 0, 2, 0, 2] [1, 2], 0),
                                (Append2 [77, 0, 0, 0, 3, 0, 4] [3, 4, 5], 0)],
                       outcome = (\<lambda>i. 0)\<rparr>,
         block_offset := 10\<rparr>)))) = [1, 2, 3, 4, 5]"
proof -
  have len: "length [1, 2, 3, 4, 5 :: byte] < 2 ^ 64"
    by simp
  have run: "AddRecord (example_writer False 32759 (\<lambda>i. 0)) [1, 2, 3, 4, 5] 77 =
     Inr (OK, (example_writer False 32759 (\<lambda>i. 0))
       \<lparr>dest := \<lparr>calls = [(Append2 [77, 0, 0, 0, 2, 0, 2] [1, 2], 0),
                                (Append2 [77, 0, 0, 0, 3, 0, 4] [3, 4, 5], 0)],
                       outcome = (\<lambda>i. 0)\<rparr>,
         block_offset := 10\<rparr>)"
    by (simp add: writer_eval)
  show ?thesis
    using len run AddRecord_round_trip[OF len run] by simp
qed

subsection \<open>Assertions, checksums and recyclable headers\<close>

lemma Writer_new_cursor_ok: "cursor_ok (Writer_new d n recycle alloc)"
  by (simp add: cursor_ok_def Writer_new_def)

lemma reachable_cursor_ok: "reachable w \<Longrightarrow> cursor_ok w"
proof (induction rule: reachable.induct)
  case (constructed d n recycle alloc)
  show ?case
    by (rule Writer_new_cursor_ok)
next
  case (added w sl crc s w')
  from add_record_loop_total[OF added.IH, of sl "word_of_nat (length sl)" True crc] added.hyps(2)
  show ?case
    by (auto simp: AddRecord_def add_record_with_crc_def)
qed

text \<open>
  A state with exactly the space of a header left in the block is reached by one record of
  32754 bytes on a new legacy writer.
\<close>

lemma header_space_only_reachable:
  assumes "length sl = 32754" and "outcome d (length (calls d)) = 0"
  shows "AddRecord (Writer_new d n False alloc) sl crc =
    Inr (OK, (Writer_new d n False alloc)
      \<lparr>dest := d\<lparr>calls := calls d @
          [(Append2 (header_bytes (Writer_new d n False alloc) kFullType 32754 crc) sl, 0)]\<rparr>,
        block_offset := 32761\<rparr>)"
  using assms
  by (simp add: AddRecord_def add_record_with_crc_def add_record_loop.simps loop_body_def
      switch_block_def EmitPhysicalRecord_def Let_def kBlockSize_def kHeaderSize_def
      fragment_type_def append2_def header_bytes_def Writer_new_def)

lemma two_length_bytes:
  fixes n :: size_t
  assumes "n \<le> 0xffff"
  shows "ucast (ucast (n AND 0xff) :: byte) OR push_bit 8 (ucast (ucast (drop_bit 8 n) :: byte)) = n"
proof (rule bit_eqI)
  fix k :: nat
  have m: "(0xff :: size_t) = mask 8"
    by (simp add: mask_eq_exp_minus_1)
  have "n < 2 ^ 16"
    using assms by (simp add: word_le_nat_alt word_less_nat_alt)
  then have "n AND mask 16 = n"
    by (rule less_mask_eq)
  then have hi: "bit n k \<Longrightarrow> k < 16"
    by (metis bit_and_iff bit_mask_iff)
  have lo: "bit (ucast (ucast (n AND mask 8) :: byte) :: size_t) k = (k < 8 \<and> bit n k)"
    by (auto simp: bit_ucast_iff bit_and_iff bit_mask_iff)
  have up: "bit (push_bit 8 (ucast (ucast (drop_bit 8 n) :: byte)) :: size_t) k =
      (8 \<le> k \<and> k < 16 \<and> bit n k)"
    by (auto simp: bit_push_bit_iff bit_ucast_iff bit_drop_bit_eq dest: bit_imp_le_length)
  show "bit (ucast (ucast (n AND 0xff) :: byte) OR push_bit 8 (ucast (ucast (drop_bit 8 n) :: byte)) :: size_t) k = bit n k"
    unfolding m bit_or_iff lo up using hi by auto
qed

lemma length_field_header_bytes:
  "n \<le> 0xffff \<Longrightarrow> length_field (header_bytes w t n crc) = n"
  by (simp add: length_field_def header_bytes_def EncodeFixed32_def two_length_bytes)

lemma AddRecord_records:
  assumes "AddRecord w sl crc = Inr (s, w')"
  shows "list_all (record_ok w crc) (records_of (new_calls w w'))"
    and "log_number w' = log_number w" and "recycle_log_files w' = recycle_log_files w"
    and "outcome (dest w') = outcome (dest w)"
proof -
  have u: "unat (word_of_nat (length sl) :: size_t) \<le> length sl"
    by (simp add: unat_of_nat)
  from assms have "add_record_loop w sl (word_of_nat (length sl)) True crc = Inr (s, w')"
    by (simp add: AddRecord_def add_record_with_crc_def)
  from add_record_loop_records[OF this u] obtain cs where
    c: "calls (dest w') = calls (dest w) @ cs" "outcome (dest w') = outcome (dest w)"
     "log_number w' = log_number w" "recycle_log_files w' = recycle_log_files w"
     "list_all (record_ok w crc) (records_of cs)"
    by blast
  then show "list_all (record_ok w crc) (records_of (new_calls w w'))"
    by (simp add: new_calls_def)
  from c show "log_number w' = log_number w" "recycle_log_files w' = recycle_log_files w"
    "outcome (dest w') = outcome (dest w)"
    by simp_all
qed

text \<open>
  C9. From every state whose cursor lies within the block, \<^verbatim>\<open>AddRecord\<close> returns a
  status: no assertion fails, neither the two of the loop nor the two of
  \<^verbatim>\<open>EmitPhysicalRecord\<close> (\<open>n \<le> 0xffff\<close> and
  \<open>block_offset + header_size + n \<le> kBlockSize\<close>), in any iteration. Every physical
  record handed to the sink carries at most 65535 payload bytes, the two length bytes of
  its header decode to exactly that number of bytes, and the cursor again lies within
  the block.
\<close>

theorem AddRecord_assertions_hold:
  assumes "cursor_ok w"
  shows "\<exists>s w'. AddRecord w sl crc = Inr (s, w') \<and> cursor_ok w' \<and>
    list_all (\<lambda>hp. length (snd hp) \<le> 65535 \<and> unat (length_field (fst hp)) = length (snd hp))
      (records_of (new_calls w w'))"
proof -
  from add_record_loop_total[OF assms] obtain s w' where
    r: "add_record_loop w sl (word_of_nat (length sl)) True crc = Inr (s, w')" and ok: "cursor_ok w'"
    by blast
  then have a: "AddRecord w sl crc = Inr (s, w')"
    by (simp add: AddRecord_def add_record_with_crc_def)
  have "length (snd hp) \<le> 65535 \<and> unat (length_field (fst hp)) = length (snd hp)"
    if "record_ok w crc hp" for hp
  proof -
    from that obtain t and n :: size_t where
      "fst hp = header_bytes w t n crc" "n \<le> 0xffff" "length (snd hp) = unat n"
      by (auto simp: record_ok_def)
    then show ?thesis
      by (simp add: word_le_nat_alt length_field_header_bytes)
  qed
  with AddRecord_records(1)[OF a]
  have "list_all (\<lambda>hp. length (snd hp) \<le> 65535 \<and> unat (length_field (fst hp)) = length (snd hp))
      (records_of (new_calls w w'))"
    by (simp add: list_all_iff)
  with a ok show ?thesis
    by blast
qed

theorem AddRecord_assertions_hold_witness:
  "cursor_ok (example_writer True 32760 (\<lambda>i. 0)) \<and>
   (\<exists>s w'. AddRecord (example_writer True 32760 (\<lambda>i. 0)) [1, 2, 3, 4, 5] 77 = Inr (s, w') \<and>
      cursor_ok w' \<and>
      list_all (\<lambda>hp. length (snd hp) \<le> 65535 \<and> unat (length_field (fst hp)) = length (snd hp))
        (records_of (new_calls (example_writer True 32760 (\<lambda>i. 0)) w')))"
proof -
  have c: "cursor_ok (example_writer True 32760 (\<lambda>i. 0))"
    by (simp add: cursor_ok_def example_writer_def Writer_new_def kBlockSize_def)
  show ?thesis
    using c AddRecord_assertions_hold[OF c, of "[1, 2, 3, 4, 5]" 77] by simp
qed

lemma take4_header_bytes: "take 4 (header_bytes w t n crc) = EncodeFixed32 crc"
  by (simp add: header_bytes_def EncodeFixed32_def)

lemma record_ok_checksum:
  assumes "list_all (record_ok w crc) rs"
  shows "map (take 4 \<circ> fst) rs = replicate (length rs) (EncodeFixed32 crc)"
  using assms
  by (induction rs) (auto simp: record_ok_def take4_header_bytes)

text \<open>
  C2. In every header that one call of \<^verbatim>\<open>AddRecord\<close> hands to the sink, the first four
  bytes are the encoding of one and the same value: the checksum that the caller passed,
  in the two-argument form, and \<^verbatim>\<open>calculate_crc\<close> of the whole slice, in the one-argument
  form. No fragment gets a checksum of its own bytes.
\<close>

theorem AddRecord_checksum_field:
  "(AddRecord w sl crc = Inr (s, w') \<longrightarrow>
      map (take 4 \<circ> fst) (records_of (new_calls w w')) =
        replicate (length (records_of (new_calls w w'))) (EncodeFixed32 crc)) \<and>
   (AddRecord1 calculate_crc w sl = Inr (s1, w1) \<longrightarrow>
      map (take 4 \<circ> fst) (records_of (new_calls w w1)) =
        replicate (length (records_of (new_calls w w1))) (EncodeFixed32 (calculate_crc sl)))"
  by (auto simp: AddRecord1_def dest!: AddRecord_records(1) record_ok_checksum)

theorem AddRecord_checksum_field_witness:
  "AddRecord (example_writer False 32759 (\<lambda>i. 0)) [1, 2, 3, 4, 5] 77 =
     Inr (OK, (example_writer False 32759 (\<lambda>i. 0))
       \<lparr>dest := \<lparr>calls = [(Append2 (EncodeFixed32 77 @ [2, 0, 2]) [1, 2], 0),
                                (Append2 (EncodeFixed32 77 @ [3, 0, 4]) [3, 4, 5], 0)],
                       outcome = (\<lambda>i. 0)\<rparr>,
         block_offset := 10\<rparr>) \<and>
   map (take 4 \<circ> fst) (records_of (new_calls (example_writer False 32759 (\<lambda>i. 0))
     ((example_writer False 32759 (\<lambda>i. 0))
       \<lparr>dest := \<lparr>calls = [(Append2 (EncodeFixed32 77 @ [2, 0, 2]) [1, 2], 0),
                                (Append2 (EncodeFixed32 77 @ [3, 0, 4]) [3, 4, 5], 0)],
                       outcome = (\<lambda>i. 0)\<rparr>,
         block_offset := 10\<rparr>))) = [EncodeFixed32 77, EncodeFixed32 77] \<and>
   AddRecord1 crc32c_Value (example_writer False 32759 (\<lambda>i. 0)) [1, 2, 3, 4, 5] =
     Inr (OK, (example_writer False 32759 (\<lambda>i. 0))
       \<lparr>dest := \<lparr>calls =
           [(Append2 (EncodeFixed32 (crc32c_Value [1, 2, 3, 4, 5]) @ [2, 0, 2]) [1, 2], 0),
            (Append2 (EncodeFixed32 (crc32c_Value [1, 2, 3, 4, 5]) @ [3, 0, 4]) [3, 4, 5], 0)],
                       outcome = (\<lambda>i. 0)\<rparr>,
         block_offset := 10\<rparr>) \<and>
   map (take 4 \<circ> fst) (records_of (new_calls (example_writer False 32759 (\<lambda>i. 0))
     ((example_writer False 32759 (\<lambda>i. 0))
       \<lparr>dest := \<lparr>calls =
           [(Append2 (EncodeFixed32 (crc32c_Value [1, 2, 3, 4, 5]) @ [2, 0, 2]) [1, 2], 0),
            (Append2 (EncodeFixed32 (crc32c_Value [1, 2, 3, 4, 5]) @ [3, 0, 4]) [3, 4, 5], 0)],
                       outcome = (\<lambda>i. 0)\<rparr>,
         block_offset := 10\<rparr>))) =
     [EncodeFixed32 (crc32c_Value [1, 2, 3, 4, 5]), EncodeFixed32 (crc32c_Value [1, 2, 3, 4, 5])]"
  (is "?run2 \<and> ?sum2 \<and> ?run1 \<and> ?sum1")
proof -
  have r2: ?run2
    by (simp add: writer_eval)
  have r1: ?run1
    by (simp add: AddRecord1_def writer_eval)
  have l: "length (records_of (new_calls (example_writer False 32759 (\<lambda>i. 0))
     ((example_writer False 32759 (\<lambda>i. 0))\<lparr>dest := \<lparr>calls = [(Append2 h1 p1, 0), (Append2 h2 p2, 0)],
        outcome = (\<lambda>i. 0)\<rparr>, block_offset := 10\<rparr>))) = 2" for h1 p1 h2 p2
    by (simp add: new_calls_def example_writer_def Writer_new_def)
  from AddRecord_checksum_field[THEN conjunct1, rule_format, OF r2] have ?sum2
    by (simp only: l) (simp add: numeral_2_eq_2)
  moreover from AddRecord_checksum_field[THEN conjunct2, rule_format, OF r1] have ?sum1
    by (simp only: l) (simp add: numeral_2_eq_2)
  ultimately show ?thesis
    using r1 r2 by blast
qed

text \<open>
  C7. In recycle mode every physical record of a call, the first, the middle and the last
  fragments alike, has a header of 11 bytes whose last four are the little-endian low 32
  bits of the log number, and a recyclable type code in byte 6. The call changes neither
  the mode nor the log number, so the same holds for every later call.
\<close>

theorem recyclable_headers:
  assumes "recycle_log_files w" and "AddRecord w sl crc = Inr (s, w')"
  shows "list_all (\<lambda>hp. length (fst hp) = 11 \<and>
            drop 7 (fst hp) = EncodeFixed32 (ucast (log_number w)) \<and>
            (\<exists>t \<in> {kRecyclableFullType, kRecyclableFirstType, kRecyclableMiddleType,
                    kRecyclableLastType}. fst hp ! 6 = word_of_nat (type_code t)))
          (records_of (new_calls w w')) \<and>
         recycle_log_files w' \<and> log_number w' = log_number w"
proof -
  have "length (fst hp) = 11 \<and>
            drop 7 (fst hp) = EncodeFixed32 (ucast (log_number w)) \<and>
            (\<exists>t \<in> {kRecyclableFullType, kRecyclableFirstType, kRecyclableMiddleType,
                    kRecyclableLastType}. fst hp ! 6 = word_of_nat (type_code t))"
    if "record_ok w crc hp" for hp
  proof -
    from that assms(1) obtain b e n where
      h: "fst hp = header_bytes w (fragment_type True b e) n crc"
      by (auto simp: record_ok_def)
    show ?thesis
      unfolding h
      by (simp add: header_bytes_def fragment_type_def EncodeFixed32_def nth_append)
  qed
  with AddRecord_records(1)[OF assms(2)] have "list_all (\<lambda>hp. length (fst hp) = 11 \<and>
            drop 7 (fst hp) = EncodeFixed32 (ucast (log_number w)) \<and>
            (\<exists>t \<in> {kRecyclableFullType, kRecyclableFirstType, kRecyclableMiddleType,
                    kRecyclableLastType}. fst hp ! 6 = word_of_nat (type_code t)))
          (records_of (new_calls w w'))"
    by (simp add: list_all_iff)
  with AddRecord_records(2,3)[OF assms(2)] assms(1) show ?thesis
    by simp
qed

theorem recyclable_headers_witness:
  "recycle_log_files (example_writer True 32755 (\<lambda>i. 0)) \<and>
   AddRecord (example_writer True 32755 (\<lambda>i. 0)) [1, 2, 3, 4, 5] 77 =
     Inr (OK, (example_writer True 32755 (\<lambda>i. 0))
       \<lparr>dest := \<lparr>calls =
           [(Append2 [77, 0, 0, 0, 2, 0, 6, 144, 120, 86, 52] [1, 2], 0),
            (Append2 [77, 0, 0, 0, 3, 0, 8, 144, 120, 86, 52] [3, 4, 5], 0)],
                       outcome = (\<lambda>i. 0)\<rparr>,
         block_offset := 14\<rparr>) \<and>
   list_all (\<lambda>hp. length (fst hp) = 11 \<and>
            drop 7 (fst hp) = EncodeFixed32 (ucast (log_number (example_writer True 32755 (\<lambda>i. 0)))) \<and>
            (\<exists>t \<in> {kRecyclableFullType, kRecyclableFirstType, kRecyclableMiddleType,
                    kRecyclableLastType}. fst hp ! 6 = word_of_nat (type_code t)))
     (records_of (new_calls (example_writer True 32755 (\<lambda>i. 0))
       ((example_writer True 32755 (\<lambda>i. 0))
       \<lparr>dest := \<lparr>calls =
           [(Append2 [77, 0, 0, 0, 2, 0, 6, 144, 120, 86, 52] [1, 2], 0),
            (Append2 [77, 0, 0, 0, 3, 0, 8, 144, 120, 86, 52] [3, 4, 5], 0)],
                       outcome = (\<lambda>i. 0)\<rparr>,
         block_offset := 14\<rparr>)))"
  (is "?mode \<and> ?run \<and> ?headers")
proof -
  have m: ?mode
    by (simp add: example_writer_def Writer_new_def)
  have r: ?run
    by (simp add: writer_eval)
  from recyclable_headers[OF m r] have ?headers
    by (rule conjunct1)
  with m r show ?thesis
    by blast
qed

subsection \<open>The block switch, the empty record and the empty fragment\<close>

lemma mode_header_size_cases: "mode_header_size w = 7 \<or> mode_header_size w = 11"
  by (simp add: mode_header_size_def kHeaderSize_def kRecyclableHeaderSize_def)

lemma loop_body_padding:
  assumes "cursor_ok w"
  obtains s w2 n r where
    "loop_body w ptr left b crc = Inr (s, w2, drop (unat n) ptr, left - n)"
    "calls (dest w2) = calls (dest w) @ padding_of w @
       [(Append2 (header_bytes w (fragment_type (recycle_log_files w) b (left = n)) n crc)
          (take (unat n) ptr), r)]"
    "unat n = min (unat left)
       (32768 - (if sint (kBlockSize - block_offset w) < mode_header_size w then 0
        else unat (block_offset w)) - nat (mode_header_size w))"
    "cursor_ok w2"
    "s = OK \<and> 0 < left - n \<Longrightarrow> block_offset w2 = kBlockSize"
proof -
  from loop_body_ok[OF assms(1), of left ptr b crc] obtain w1 n where
    sw: "switch_block w (mode_header_size w) = Inr w1" and
    o: "unat (block_offset w1) + nat (mode_header_size w) \<le> 32768" and
    un: "unat n = min (unat left) (32768 - unat (block_offset w1) - nat (mode_header_size w))" and
    body: "loop_body w ptr left b crc =
      Inr (if outcome (dest w1) (length (calls (dest w1))) = 0 then OK else IOError,
        w1\<lparr>dest := (dest w1)\<lparr>calls := calls (dest w1) @
              [(Append2 (header_bytes w (fragment_type (recycle_log_files w) b (left = n)) n crc)
                  (take (unat n) ptr),
                outcome (dest w1) (length (calls (dest w1))))]\<rparr>,
          block_offset := (if outcome (dest w1) (length (calls (dest w1))) = 0
            then block_offset w1 + (word_of_nat (nat (mode_header_size w)) + n)
            else block_offset w1)\<rparr>,
        drop (unat n) ptr, left - n)" and
    sum: "unat (block_offset w1 + (word_of_nat (nat (mode_header_size w)) + n)) =
       unat (block_offset w1) + nat (mode_header_size w) + unat n"
    by blast
  define r where "r = outcome (dest w1) (length (calls (dest w1)))"
  define s where "s = (if r = 0 then OK else IOError)"
  define w2 where "w2 = w1\<lparr>dest := (dest w1)\<lparr>calls := calls (dest w1) @
              [(Append2 (header_bytes w (fragment_type (recycle_log_files w) b (left = n)) n crc)
                  (take (unat n) ptr), r)]\<rparr>,
          block_offset := (if r = 0
            then block_offset w1 + (word_of_nat (nat (mode_header_size w)) + n)
            else block_offset w1)\<rparr>"
  have b1: "loop_body w ptr left b crc = Inr (s, w2, drop (unat n) ptr, left - n)"
    using body by (simp only: s_def w2_def r_def)
  obtain k where k: "unat (block_offset w) = k"
    by simp
  note l = leftover_ok[OF assms(1)]
  have le: "k \<le> 32768"
    using l(3) k by simp
  have sl: "sint (kBlockSize - block_offset w) = int (32768 - k)"
    using l(1) l(2) k by (simp only:)
  have roll: "(sint (kBlockSize - block_offset w) < mode_header_size w) = (32768 - k < nat (mode_header_size w))"
    unfolding sl using mode_header_size_cases[of w] by auto
  have pos: "(0 < sint (kBlockSize - block_offset w)) = (k \<noteq> 32768)"
    "nat (sint (kBlockSize - block_offset w)) = 32768 - k"
    unfolding sl using le by linarith+
  note sb = switch_block_ok[OF assms(1) mode_header_size_cases[of w], unfolded k]
  from sw sb have w1: "w1 = (if 32768 - k < nat (mode_header_size w)
         then (if k = 32768 then w\<lparr>block_offset := 0\<rparr>
               else w\<lparr>dest := snd (append1 (dest w) (replicate (32768 - k) 0)),
                      block_offset := 0\<rparr>)
         else w)"
    by simp
  have pd: "padding_of w = (if 32768 - k < nat (mode_header_size w) \<and> k \<noteq> 32768
    then [(Append1 (replicate (32768 - k) 0), outcome (dest w) (length (calls (dest w))))]
    else [])"
    unfolding padding_of_def Let_def roll pos by simp
  have c1: "calls (dest w1) = calls (dest w) @ padding_of w"
    unfolding pd by (simp add: w1 append1_def Let_def)
  have o1: "unat (block_offset w1) = (if 32768 - k < nat (mode_header_size w) then 0 else k)"
    by (simp add: w1 k)
  have c2: "calls (dest w2) = calls (dest w) @ padding_of w @
       [(Append2 (header_bytes w (fragment_type (recycle_log_files w) b (left = n)) n crc)
          (take (unat n) ptr), r)]"
    using c1 by (simp add: w2_def)
  have un2: "unat n = min (unat left)
       (32768 - (if sint (kBlockSize - block_offset w) < mode_header_size w then 0
        else unat (block_offset w)) - nat (mode_header_size w))"
    unfolding roll k using un by (simp only: o1)
  have o2: "unat (block_offset w2) = unat (block_offset w1)
      + (if r = 0 then nat (mode_header_size w) + unat n else 0)"
    using sum by (simp add: w2_def)
  have nb: "unat n \<le> 32768 - unat (block_offset w1) - nat (mode_header_size w)"
    using un by simp
  then have "unat (block_offset w1) + nat (mode_header_size w) + unat n \<le> 32768"
    using o by linarith
  then have "unat (block_offset w2) \<le> 32768"
    using o2 by (cases "r = 0") simp_all
  then have ok2: "cursor_ok w2"
    by (simp add: cursor_ok_def word_le_nat_alt kBlockSize_def)
  have full: "block_offset w2 = kBlockSize" if "s = OK \<and> 0 < left - n"
  proof -
    from that have r0: "r = 0" and ne: "left - n \<noteq> 0"
      by (auto simp: s_def split: if_splits)
    then have "n \<noteq> left"
      by auto
    then have "unat n \<noteq> unat left"
      by (simp add: word_unat_eq_iff)
    then have "unat n = 32768 - unat (block_offset w1) - nat (mode_header_size w)"
      using un by linarith
    then have "unat (block_offset w2) = 32768"
      using o2 r0 o by simp
    then show ?thesis
      by (simp add: kBlockSize_def word_unat_eq_iff)
  qed
  show ?thesis
    by (rule that[OF b1 c2 un2 ok2 full])
qed

lemma padding_of_full: "block_offset w = kBlockSize \<Longrightarrow> padding_of w = []"
  by (simp add: padding_of_def)

lemma add_record_loop_padding:
  assumes "cursor_ok w"
  shows "\<exists>s w' n r rest. add_record_loop w ptr left b crc = Inr (s, w') \<and>
    calls (dest w') = calls (dest w) @ padding_of w @
       (Append2 (header_bytes w (fragment_type (recycle_log_files w) b (left = n)) n crc)
          (take (unat n) ptr), r) # rest \<and>
    unat n = min (unat left)
       (32768 - (if sint (kBlockSize - block_offset w) < mode_header_size w then 0
        else unat (block_offset w)) - nat (mode_header_size w)) \<and>
    length (records_of rest) = length rest"
  using assms
proof (induction w ptr left b crc rule: add_record_loop.induct)
  case (1 w ptr left b crc)
  from loop_body_padding[OF "1.prems", of ptr left b crc] obtain s2 w2 n r where
    body: "loop_body w ptr left b crc = Inr (s2, w2, drop (unat n) ptr, left - n)" and
    c: "calls (dest w2) = calls (dest w) @ padding_of w @
       [(Append2 (header_bytes w (fragment_type (recycle_log_files w) b (left = n)) n crc)
          (take (unat n) ptr), r)]" and
    un: "unat n = min (unat left)
       (32768 - (if sint (kBlockSize - block_offset w) < mode_header_size w then 0
        else unat (block_offset w)) - nat (mode_header_size w))" and
    ok2: "cursor_ok w2" and
    full: "s2 = OK \<and> 0 < left - n \<Longrightarrow> block_offset w2 = kBlockSize"
    by blast
  show ?case
  proof (cases "s2 = OK \<and> 0 < left - n")
    case True
    from "1.IH"[OF body refl refl refl True ok2] obtain s w' n' r' rest' where
      run: "add_record_loop w2 (drop (unat n) ptr) (left - n) False crc = Inr (s, w')" and
      c': "calls (dest w') = calls (dest w2) @ padding_of w2 @
         (Append2 (header_bytes w2 (fragment_type (recycle_log_files w2) False (left - n = n')) n' crc)
          (take (unat n') (drop (unat n) ptr)), r') # rest'" and
      rl: "length (records_of rest') = length rest'"
      by blast
    have p2: "padding_of w2 = []"
      using full[OF True] by (rule padding_of_full)
    have r1: "add_record_loop w ptr left b crc = Inr (s, w')"
      using body True run by (simp add: add_record_loop.simps[of w ptr left b crc])
    show ?thesis
      apply (rule exI[of _ s], rule exI[of _ w'], rule exI[of _ n], rule exI[of _ r])
      apply (rule exI[of _ "(Append2 (header_bytes w2 (fragment_type (recycle_log_files w2) False (left - n = n')) n' crc)
          (take (unat n') (drop (unat n) ptr)), r') # rest'"])
      using r1 c c' p2 un rl by simp
  next
    case False
    with body have "add_record_loop w ptr left b crc = Inr (s2, w2)"
      by (auto simp: add_record_loop.simps[of w ptr left b crc])
    with c un show ?thesis
      by (intro exI[of _ s2] exI[of _ w2] exI[of _ n] exI[of _ r] exI[of _ "[]"]) simp
  qed
qed

lemma block_roll_loop:
  assumes "cursor_ok w"
    and "sint (kBlockSize - block_offset w) < mode_header_size w"
    and "pad = (if sint (kBlockSize - block_offset w) = 0 then []
       else [(Append1 (replicate (nat (sint (kBlockSize - block_offset w))) 0),
              outcome (dest w) (length (calls (dest w))))])"
    and "w0 = w\<lparr>dest := (dest w)\<lparr>calls := calls (dest w) @ pad\<rparr>, block_offset := 0\<rparr>"
  shows "\<exists>s w' n r rest. add_record_loop w ptr left b crc = Inr (s, w') \<and>
      new_calls w w' = pad @
        (Append2 (header_bytes w (fragment_type (recycle_log_files w) b (left = n)) n crc)
           (take (unat n) ptr), r) # rest \<and>
      unat n = min (unat left) (32768 - nat (mode_header_size w)) \<and>
      length (records_of rest) = length rest"
    and "add_record_loop w ptr left b crc = add_record_loop w0 ptr left b crc"
    and "switch_block w (mode_header_size w) = Inr w0"
proof -
  note l = leftover_ok[OF assms(1)]
  have nn: "0 \<le> sint (kBlockSize - block_offset w)"
    by (simp only: l(1) of_nat_0_le_iff)
  have pd: "padding_of w = pad"
    using assms(2) nn unfolding assms(3) padding_of_def Let_def by auto
  from add_record_loop_padding[OF assms(1), of ptr left b crc] obtain s w' n r rest where
    run: "add_record_loop w ptr left b crc = Inr (s, w')" and
    c: "calls (dest w') = calls (dest w) @ padding_of w @
       (Append2 (header_bytes w (fragment_type (recycle_log_files w) b (left = n)) n crc)
          (take (unat n) ptr), r) # rest" and
    un: "unat n = min (unat left)
       (32768 - (if sint (kBlockSize - block_offset w) < mode_header_size w then 0
        else unat (block_offset w)) - nat (mode_header_size w))" and
    rl: "length (records_of rest) = length rest"
    by blast
  have un': "unat n = min (unat left) (32768 - nat (mode_header_size w))"
    using un assms(2) by simp
  have nc: "new_calls w w' = pad @
        (Append2 (header_bytes w (fragment_type (recycle_log_files w) b (left = n)) n crc)
           (take (unat n) ptr), r) # rest"
    using c by (simp add: new_calls_def pd)
  from run nc un' rl show "\<exists>s w' n r rest. add_record_loop w ptr left b crc = Inr (s, w') \<and>
      new_calls w w' = pad @
        (Append2 (header_bytes w (fragment_type (recycle_log_files w) b (left = n)) n crc)
           (take (unat n) ptr), r) # rest \<and>
      unat n = min (unat left) (32768 - nat (mode_header_size w)) \<and>
      length (records_of rest) = length rest"
    by blast
  obtain k where k: "unat (block_offset w) = k"
    by simp
  have s: "sint (kBlockSize - block_offset w) = int (32768 - k)"
    using l(1) l(2) k by (simp only:)
  have le: "k \<le> 32768"
    using l(3) k by simp
  have lt: "32768 - k < nat (mode_header_size w)"
    using assms(2) s by linarith
  have e: "(sint (kBlockSize - block_offset w) = 0) = (k = 32768)"
    "nat (sint (kBlockSize - block_offset w)) = 32768 - k"
    using s le by linarith+
  have w0: "w0 = (if k = 32768 then w\<lparr>block_offset := 0\<rparr>
               else w\<lparr>dest := snd (append1 (dest w) (replicate (32768 - k) 0)),
                      block_offset := 0\<rparr>)"
    unfolding assms(4) assms(3) e by (simp add: append1_def Let_def)
  note sb = switch_block_ok[OF assms(1) mode_header_size_cases[of w], unfolded k]
  show sw: "switch_block w (mode_header_size w) = Inr w0"
    using sb lt by (simp add: w0)
  have z: "block_offset w0 = 0" and m0: "recycle_log_files w0 = recycle_log_files w"
    by (simp_all add: assms(4))
  then have mh: "mode_header_size w0 = mode_header_size w"
    by (simp add: mode_header_size_def)
  have ok0: "cursor_ok w0"
    using z by (simp add: cursor_ok_def)
  have "\<not> 32768 - unat (block_offset w0) < nat (mode_header_size w0)"
    using z mode_header_size_cases[of w0] by auto
  with switch_block_ok[OF ok0 mode_header_size_cases[of w0]]
  have sw0: "switch_block w0 (mode_header_size w) = Inr w0"
    by (simp add: mh)
  have lb: "loop_body w ptr left b crc = loop_body w0 ptr left b crc"
    using sw sw0 m0
    by (simp add: loop_body_def mode_header_size_def[symmetric])
  show "add_record_loop w ptr left b crc = add_record_loop w0 ptr left b crc"
    by (simp add: add_record_loop.simps[of w ptr left b crc]
        add_record_loop.simps[of w0 ptr left b crc] lb)
qed

text \<open>
  C5. When \<^verbatim>\<open>AddRecord\<close>, or any later iteration of its loop, starts with less than the
  header size left in the block (\<open>leftover\<close> is \<open>sint (kBlockSize - block_offset w)\<close>, as
  in the source), the call returns a status and what it appended to the sink starts with
  one filler of exactly \<open>leftover\<close> zero bytes, or with no filler at all when \<open>leftover\<close>
  is 0. The record that follows is the one formatted at the cursor 0: its length is the
  smaller of the bytes left and the block size less the header size. All later calls are
  records, so no other padding is written. The whole call is the call from the state with
  the filler appended and the cursor at 0, which is the state the block switch returns.
\<close>

theorem block_roll_padding:
  assumes "cursor_ok w"
    and "sint (kBlockSize - block_offset w) < mode_header_size w"
    and "pad = (if sint (kBlockSize - block_offset w) = 0 then []
       else [(Append1 (replicate (nat (sint (kBlockSize - block_offset w))) 0),
              outcome (dest w) (length (calls (dest w))))])"
    and "w0 = w\<lparr>dest := (dest w)\<lparr>calls := calls (dest w) @ pad\<rparr>, block_offset := 0\<rparr>"
  shows "(\<exists>s w' n r rest. AddRecord w sl crc = Inr (s, w') \<and>
      new_calls w w' = pad @
        (Append2 (header_bytes w
            (fragment_type (recycle_log_files w) True (word_of_nat (length sl) = n)) n crc)
           (take (unat n) sl), r) # rest \<and>
      unat n = min (unat (word_of_nat (length sl) :: size_t)) (32768 - nat (mode_header_size w)) \<and>
      length (records_of rest) = length rest) \<and>
    AddRecord w sl crc = AddRecord w0 sl crc \<and>
    (\<exists>s w' n r rest. add_record_loop w ptr left b crc = Inr (s, w') \<and>
      new_calls w w' = pad @
        (Append2 (header_bytes w (fragment_type (recycle_log_files w) b (left = n)) n crc)
           (take (unat n) ptr), r) # rest \<and>
      unat n = min (unat left) (32768 - nat (mode_header_size w)) \<and>
      length (records_of rest) = length rest) \<and>
    add_record_loop w ptr left b crc = add_record_loop w0 ptr left b crc \<and>
    switch_block w (mode_header_size w) = Inr w0"
  using block_roll_loop(1)[OF assms, where ptr = sl and left = "word_of_nat (length sl)"
      and b = True and crc = crc]
    block_roll_loop(2)[OF assms, where ptr = sl and left = "word_of_nat (length sl)"
      and b = True and crc = crc]
    block_roll_loop(1)[OF assms, where ptr = ptr and left = left and b = b and crc = crc]
    block_roll_loop(2)[OF assms, where ptr = ptr and left = left and b = b and crc = crc]
    block_roll_loop(3)[OF assms]
  by (simp add: AddRecord_def add_record_with_crc_def)

theorem block_roll_padding_witness:
  "cursor_ok (example_writer False 32764 accepting) \<and>
   sint (kBlockSize - block_offset (example_writer False 32764 accepting))
     < mode_header_size (example_writer False 32764 accepting) \<and>
   AddRecord (example_writer False 32764 accepting) [1, 2, 3] 77 =
     Inr (OK, (example_writer False 32764 accepting)
       \<lparr>dest := \<lparr>calls = [(Append1 (replicate 4 0), 0),
                                (Append2 [77, 0, 0, 0, 3, 0, 1] [1, 2, 3], 0)],
                       outcome = accepting\<rparr>,
         block_offset := 10\<rparr>) \<and>
   AddRecord (example_writer False 32764 accepting) [1, 2, 3] 77 =
     AddRecord ((example_writer False 32764 accepting)
       \<lparr>dest := \<lparr>calls = [(Append1 (replicate 4 0), 0)], outcome = accepting\<rparr>,
         block_offset := 0\<rparr>) [1, 2, 3] 77 \<and>
   switch_block (example_writer False 32764 accepting)
       (mode_header_size (example_writer False 32764 accepting)) =
     Inr ((example_writer False 32764 accepting)
       \<lparr>dest := \<lparr>calls = [(Append1 (replicate 4 0), 0)], outcome = accepting\<rparr>,
         block_offset := 0\<rparr>)"
  (is "?ok \<and> ?small \<and> ?run \<and> ?same \<and> ?switch")
proof -
  have c: ?ok
    by (simp add: cursor_ok_def example_writer_def Writer_new_def kBlockSize_def)
  have l: ?small
    by (simp add: mode_header_size_def example_writer_def Writer_new_def kBlockSize_def
        kHeaderSize_def)
  have r: ?run
    by (simp add: writer_eval accepting_def)
  note t = block_roll_padding[OF c l refl refl, of "[1, 2, 3]" 77 "[1, 2, 3]" 3 True]
  have v: "sint (kBlockSize - block_offset (example_writer False 32764 accepting)) = 4"
    by (simp add: example_writer_def Writer_new_def kBlockSize_def)
  have w0: "(example_writer False 32764 accepting)
       \<lparr>dest := (dest (example_writer False 32764 accepting))
          \<lparr>calls := calls (dest (example_writer False 32764 accepting)) @
            (if sint (kBlockSize - block_offset (example_writer False 32764 accepting)) = 0 then []
             else [(Append1 (replicate
               (nat (sint (kBlockSize - block_offset (example_writer False 32764 accepting)))) 0),
               outcome (dest (example_writer False 32764 accepting))
                 (length (calls (dest (example_writer False 32764 accepting)))))])\<rparr>,
         block_offset := 0\<rparr> =
     (example_writer False 32764 accepting)
       \<lparr>dest := \<lparr>calls = [(Append1 (replicate 4 0), 0)], outcome = accepting\<rparr>,
         block_offset := 0\<rparr>"
    unfolding v by (simp add: example_writer_def Writer_new_def accepting_def)
  from t have ?same ?switch
    unfolding w0 by simp_all
  with c l r show ?thesis
    by blast
qed

text \<open>
  C8. For the empty slice \<^verbatim>\<open>AddRecord\<close> is one iteration of the loop, and it hands the sink
  one physical record: the header of a Full record (of the mode of the writer) for the
  length 0, and no payload.
\<close>

theorem empty_record:
  assumes "cursor_ok w"
  shows "AddRecord w [] crc =
      (case loop_body w [] 0 True crc of
         Inl a \<Rightarrow> Inl a
       | Inr (s, w', ptr', left') \<Rightarrow> Inr (s, w')) \<and>
    (\<exists>s w'. AddRecord w [] crc = Inr (s, w') \<and>
       records_of (new_calls w w') =
         [(header_bytes w (if recycle_log_files w then kRecyclableFullType else kFullType) 0 crc,
           [])])"
proof -
  from loop_body_ok[OF assms, of 0 "[]" True crc] obtain w1 n where
    sw: "switch_block w (mode_header_size w) = Inr w1" and
    un: "unat n = min (unat (0 :: size_t)) (32768 - unat (block_offset w1) - nat (mode_header_size w))" and
    body0: "loop_body w [] 0 True crc =
      Inr (if outcome (dest w1) (length (calls (dest w1))) = 0 then OK else IOError,
        w1\<lparr>dest := (dest w1)\<lparr>calls := calls (dest w1) @
              [(Append2 (header_bytes w (fragment_type (recycle_log_files w) True (0 = n)) n crc)
                  (take (unat n) []),
                outcome (dest w1) (length (calls (dest w1))))]\<rparr>,
          block_offset := (if outcome (dest w1) (length (calls (dest w1))) = 0
            then block_offset w1 + (word_of_nat (nat (mode_header_size w)) + n)
            else block_offset w1)\<rparr>,
        drop (unat n) [], 0 - n)"
    by blast
  define s where "s = (if outcome (dest w1) (length (calls (dest w1))) = 0 then OK else IOError)"
  define w2 where "w2 = w1\<lparr>dest := (dest w1)\<lparr>calls := calls (dest w1) @
              [(Append2 (header_bytes w (fragment_type (recycle_log_files w) True (0 = n)) n crc)
                  (take (unat n) []),
                outcome (dest w1) (length (calls (dest w1))))]\<rparr>,
          block_offset := (if outcome (dest w1) (length (calls (dest w1))) = 0
            then block_offset w1 + (word_of_nat (nat (mode_header_size w)) + n)
            else block_offset w1)\<rparr>"
  have body: "loop_body w [] 0 True crc = Inr (s, w2, drop (unat n) [], 0 - n)"
    using body0 by (simp only: s_def w2_def)
  have n: "n = 0"
    using un by (simp add: unat_eq_0)
  from switch_block_Inr(2)[OF sw] obtain fill where
    f: "calls (dest w1) = calls (dest w) @ fill" "records_of fill = []"
    by (auto split: if_splits)
  have one: "AddRecord w [] crc =
      (case loop_body w [] 0 True crc of
         Inl a \<Rightarrow> Inl a
       | Inr (s, w', ptr', left') \<Rightarrow> Inr (s, w'))"
    using body n
    by (simp add: AddRecord_def add_record_with_crc_def add_record_loop.simps[of w "[]" 0 True crc])
  with body have r: "AddRecord w [] crc = Inr (s, w2)"
    by simp
  have "records_of (new_calls w w2) =
         [(header_bytes w (if recycle_log_files w then kRecyclableFullType else kFullType) 0 crc,
           [])]"
    using f n by (simp add: new_calls_def w2_def records_of_append fragment_type_def)
  with one r show ?thesis
    by blast
qed

theorem empty_record_witness:
  "cursor_ok (example_writer False 32762 (\<lambda>i. 0)) \<and>
   AddRecord (example_writer False 32762 (\<lambda>i. 0)) [] 77 =
     Inr (OK, (example_writer False 32762 (\<lambda>i. 0))
       \<lparr>dest := \<lparr>calls = [(Append1 (replicate 6 0), 0),
                                (Append2 [77, 0, 0, 0, 0, 0, 1] [], 0)],
                       outcome = (\<lambda>i. 0)\<rparr>,
         block_offset := 7\<rparr>) \<and>
   header_bytes (example_writer False 32762 (\<lambda>i. 0))
     (if recycle_log_files (example_writer False 32762 (\<lambda>i. 0))
      then kRecyclableFullType else kFullType) 0 77 = [77, 0, 0, 0, 0, 0, 1] \<and>
   (AddRecord (example_writer False 32762 (\<lambda>i. 0)) [] 77 =
      (case loop_body (example_writer False 32762 (\<lambda>i. 0)) [] 0 True 77 of
         Inl a \<Rightarrow> Inl a
       | Inr (s, w', ptr', left') \<Rightarrow> Inr (s, w')) \<and>
    (\<exists>s w'. AddRecord (example_writer False 32762 (\<lambda>i. 0)) [] 77 = Inr (s, w') \<and>
       records_of (new_calls (example_writer False 32762 (\<lambda>i. 0)) w') =
         [(header_bytes (example_writer False 32762 (\<lambda>i. 0))
            (if recycle_log_files (example_writer False 32762 (\<lambda>i. 0))
             then kRecyclableFullType else kFullType) 0 77, [])]))"
  (is "?ok \<and> ?run \<and> ?header \<and> ?one")
proof -
  have c: ?ok
    by (simp add: cursor_ok_def example_writer_def Writer_new_def kBlockSize_def)
  have r: ?run
    by (simp add: writer_eval)
  have h: ?header
    by (simp add: header_bytes_def example_writer_def Writer_new_def EncodeFixed32_def)
  from empty_record[OF c, of 77] have ?one .
  with c r h show ?thesis
    by blast
qed

text \<open>
  C10. When the space left in the block is exactly the header size and payload remains
  (\<open>0 < left\<close>), the iteration does not switch blocks: it hands the sink a header for
  the length 0 with the type First (in the first iteration) or Middle, and no payload;
  once the sink has accepted it the cursor is at the end of the block, the payload and the
  count are as before, and the next iteration switches to a new block without a filler.
\<close>

theorem zero_length_fragment:
  assumes "unat (block_offset w) + nat (mode_header_size w) = 32768"
    and "0 < left"
    and "outcome (dest w) (length (calls (dest w))) = 0"
    and "w2 = w\<lparr>dest := (dest w)\<lparr>calls := calls (dest w) @
           [(Append2 (header_bytes w (fragment_type (recycle_log_files w) b False) 0 crc) [], 0)]\<rparr>,
         block_offset := kBlockSize\<rparr>"
  shows "loop_body w ptr left b crc = Inr (OK, w2, ptr, left) \<and>
    fragment_type (recycle_log_files w) b False \<in>
      {kFirstType, kMiddleType, kRecyclableFirstType, kRecyclableMiddleType} \<and>
    add_record_loop w ptr left b crc = add_record_loop w2 ptr left False crc \<and>
    switch_block w2 (mode_header_size w2) = Inr (w2\<lparr>block_offset := 0\<rparr>)"
proof -
  have ok: "cursor_ok w"
    using assms(1) by (simp add: cursor_ok_def word_le_nat_alt kBlockSize_def)
  have nr: "\<not> 32768 - unat (block_offset w) < nat (mode_header_size w)"
    using assms(1) by linarith
  with switch_block_ok[OF ok mode_header_size_cases[of w]]
  have sw: "switch_block w (mode_header_size w) = Inr w"
    by simp
  from loop_body_ok[OF ok, of left ptr b crc] obtain w1 n where
    sw1: "switch_block w (mode_header_size w) = Inr w1" and
    un: "unat n = min (unat left) (32768 - unat (block_offset w1) - nat (mode_header_size w))" and
    body: "loop_body w ptr left b crc =
      Inr (if outcome (dest w1) (length (calls (dest w1))) = 0 then OK else IOError,
        w1\<lparr>dest := (dest w1)\<lparr>calls := calls (dest w1) @
              [(Append2 (header_bytes w (fragment_type (recycle_log_files w) b (left = n)) n crc)
                  (take (unat n) ptr),
                outcome (dest w1) (length (calls (dest w1))))]\<rparr>,
          block_offset := (if outcome (dest w1) (length (calls (dest w1))) = 0
            then block_offset w1 + (word_of_nat (nat (mode_header_size w)) + n)
            else block_offset w1)\<rparr>,
        drop (unat n) ptr, left - n)"
    by blast
  from sw sw1 have w1: "w1 = w"
    by simp
  have n: "n = 0"
    using un assms(1) unfolding w1 by (simp add: unat_eq_0)
  have ne: "left \<noteq> 0"
    using assms(2) by auto
  have "unat (block_offset w + word_of_nat (nat (mode_header_size w))) = 32768"
    using assms(1) mode_header_size_cases[of w]
    by (auto simp: unat_add_lem[THEN iffD1])
  then have full: "block_offset w + word_of_nat (nat (mode_header_size w)) = kBlockSize"
    by (simp add: kBlockSize_def word_unat_eq_iff)
  have lb: "loop_body w ptr left b crc = Inr (OK, w2, ptr, left)"
    using body assms(3) ne full unfolding w1 n assms(4) by simp
  have ty: "fragment_type (recycle_log_files w) b False \<in>
      {kFirstType, kMiddleType, kRecyclableFirstType, kRecyclableMiddleType}"
    by (simp add: fragment_type_def)
  have run: "add_record_loop w ptr left b crc = add_record_loop w2 ptr left False crc"
    using lb assms(2) by (simp add: add_record_loop.simps[of w ptr left b crc])
  have ok2: "cursor_ok w2"
    by (simp add: assms(4) cursor_ok_def)
  have m2: "mode_header_size w2 = mode_header_size w"
    by (simp add: assms(4) mode_header_size_def)
  have "unat (block_offset w2) = 32768"
    by (simp add: assms(4) kBlockSize_def)
  with switch_block_ok[OF ok2 mode_header_size_cases[of w2]] mode_header_size_cases[of w2]
  have "switch_block w2 (mode_header_size w2) = Inr (w2\<lparr>block_offset := 0\<rparr>)"
    by auto
  with lb ty run show ?thesis
    by blast
qed

theorem zero_length_fragment_witness:
  "unat (block_offset (example_writer False 32761 (\<lambda>i. 0))) +
     nat (mode_header_size (example_writer False 32761 (\<lambda>i. 0))) = 32768 \<and>
   (0 :: size_t) < 3 \<and>
   outcome (dest (example_writer False 32761 (\<lambda>i. 0)))
     (length (calls (dest (example_writer False 32761 (\<lambda>i. 0))))) = 0 \<and>
   loop_body (example_writer False 32761 (\<lambda>i. 0)) [1, 2, 3] 3 True 77 =
     Inr (OK, (example_writer False 32761 (\<lambda>i. 0))
       \<lparr>dest := \<lparr>calls = [(Append2 [77, 0, 0, 0, 0, 0, 2] [], 0)], outcome = (\<lambda>i. 0)\<rparr>,
         block_offset := 32768\<rparr>, [1, 2, 3], 3) \<and>
   switch_block ((example_writer False 32761 (\<lambda>i. 0))
       \<lparr>dest := \<lparr>calls = [(Append2 [77, 0, 0, 0, 0, 0, 2] [], 0)], outcome = (\<lambda>i. 0)\<rparr>,
         block_offset := 32768\<rparr>) 7 =
     Inr ((example_writer False 32761 (\<lambda>i. 0))
       \<lparr>dest := \<lparr>calls = [(Append2 [77, 0, 0, 0, 0, 0, 2] [], 0)], outcome = (\<lambda>i. 0)\<rparr>,
         block_offset := 0\<rparr>) \<and>
   AddRecord (example_writer False 32761 (\<lambda>i. 0)) [1, 2, 3] 77 =
     Inr (OK, (example_writer False 32761 (\<lambda>i. 0))
       \<lparr>dest := \<lparr>calls = [(Append2 [77, 0, 0, 0, 0, 0, 2] [], 0),
                                (Append2 [77, 0, 0, 0, 3, 0, 4] [1, 2, 3], 0)],
                       outcome = (\<lambda>i. 0)\<rparr>,
         block_offset := 10\<rparr>)"
  (is "?space \<and> ?left \<and> ?code \<and> ?body \<and> ?switch \<and> ?run")
proof -
  have a: ?space ?left ?code
    by (simp_all add: example_writer_def Writer_new_def mode_header_size_def kHeaderSize_def)
  note z = zero_length_fragment[OF a refl, of "[1, 2, 3]" True 77]
  from z[THEN conjunct1] have b: ?body
    by (simp add: header_bytes_def fragment_type_def EncodeFixed32_def example_writer_def
        Writer_new_def kBlockSize_def)
  from z[THEN conjunct2, THEN conjunct2, THEN conjunct2] have s: ?switch
    by (simp add: header_bytes_def fragment_type_def EncodeFixed32_def example_writer_def
        Writer_new_def kBlockSize_def mode_header_size_def kHeaderSize_def)
  have r: ?run
    by (simp add: writer_eval)
  from a b s r show ?thesis
    by blast
qed

subsection \<open>A record of 40000 bytes\<close>

text \<open>
  C6. In legacy mode, from the cursor 0 and with a sink that accepts the two calls, a
  slice of 40000 bytes gives two physical records and no other call: a First record
  with the first 32761 bytes, a Last record with the other 7239, and the cursor 7246.
\<close>

theorem two_fragments_of_40000:
  assumes "length sl = 40000" and "block_offset w = 0" and "\<not> recycle_log_files w"
    and "outcome (dest w) (length (calls (dest w))) = 0"
    and "outcome (dest w) (Suc (length (calls (dest w)))) = 0"
  shows "AddRecord w sl crc =
      Inr (OK, w\<lparr>dest := (dest w)\<lparr>calls := calls (dest w) @
          [(Append2 (header_bytes w kFirstType 32761 crc) (take 32761 sl), 0),
           (Append2 (header_bytes w kLastType 7239 crc) (drop 32761 sl), 0)]\<rparr>,
        block_offset := 7246\<rparr>) \<and>
    length (take 32761 sl) = 32761 \<and> length (drop 32761 sl) = 7239 \<and>
    header_bytes w kFirstType 32761 crc = EncodeFixed32 crc @ [0xF9, 0x7F, 2] \<and>
    header_bytes w kLastType 7239 crc = EncodeFixed32 crc @ [0x47, 0x1C, 4]"
proof -
  have h: "header_bytes w kFirstType 32761 crc = EncodeFixed32 crc @ [0xF9, 0x7F, 2]"
    "header_bytes w kLastType 7239 crc = EncodeFixed32 crc @ [0x47, 0x1C, 4]"
    by (simp_all add: header_bytes_def)
  have l: "length (take 32761 sl) = 32761" "length (drop 32761 sl) = 7239"
    using assms(1) by simp_all
  have first: "loop_body w sl 40000 True crc =
    Inr (OK, w\<lparr>dest := (dest w)\<lparr>calls := calls (dest w) @
          [(Append2 (header_bytes w kFirstType 32761 crc) (take 32761 sl), 0)]\<rparr>,
        block_offset := 32768\<rparr>, drop 32761 sl, 7239)"
    using assms(2,3,4)
    by (simp add: loop_body_def switch_block_def EmitPhysicalRecord_def Let_def kBlockSize_def
        kHeaderSize_def fragment_type_def append2_def header_bytes_def)
  define w1 where "w1 = w\<lparr>dest := (dest w)\<lparr>calls := calls (dest w) @
          [(Append2 (header_bytes w kFirstType 32761 crc) (take 32761 sl), 0)]\<rparr>,
        block_offset := 32768\<rparr>"
  have second: "loop_body w1 (drop 32761 sl) 7239 False crc =
    Inr (OK, w\<lparr>dest := (dest w)\<lparr>calls := calls (dest w) @
          [(Append2 (header_bytes w kFirstType 32761 crc) (take 32761 sl), 0),
           (Append2 (header_bytes w kLastType 7239 crc) (drop 32761 sl), 0)]\<rparr>,
        block_offset := 7246\<rparr>, [], 0)"
    using assms(1,3,5)
    by (simp add: w1_def loop_body_def switch_block_def EmitPhysicalRecord_def Let_def
        kBlockSize_def kHeaderSize_def fragment_type_def append2_def header_bytes_def)
  have "add_record_loop w sl 40000 True crc = add_record_loop w1 (drop 32761 sl) 7239 False crc"
    using first by (simp add: add_record_loop.simps[of w sl 40000 True crc] w1_def)
  also have "\<dots> = Inr (OK, w\<lparr>dest := (dest w)\<lparr>calls := calls (dest w) @
          [(Append2 (header_bytes w kFirstType 32761 crc) (take 32761 sl), 0),
           (Append2 (header_bytes w kLastType 7239 crc) (drop 32761 sl), 0)]\<rparr>,
        block_offset := 7246\<rparr>)"
    using second by (simp add: add_record_loop.simps[of w1 "drop 32761 sl" 7239 False crc])
  finally have "AddRecord w sl crc = Inr (OK, w\<lparr>dest := (dest w)\<lparr>calls := calls (dest w) @
          [(Append2 (header_bytes w kFirstType 32761 crc) (take 32761 sl), 0),
           (Append2 (header_bytes w kLastType 7239 crc) (drop 32761 sl), 0)]\<rparr>,
        block_offset := 7246\<rparr>)"
    using assms(1) by (simp add: AddRecord_def add_record_with_crc_def)
  with l h show ?thesis
    by simp
qed

theorem two_fragments_of_40000_witness:
  "length (replicate 40000 (0 :: byte)) = 40000 \<and>
   block_offset (example_writer False 0 (\<lambda>i. 0)) = 0 \<and>
   \<not> recycle_log_files (example_writer False 0 (\<lambda>i. 0)) \<and>
   outcome (dest (example_writer False 0 (\<lambda>i. 0)))
     (length (calls (dest (example_writer False 0 (\<lambda>i. 0))))) = 0 \<and>
   outcome (dest (example_writer False 0 (\<lambda>i. 0)))
     (Suc (length (calls (dest (example_writer False 0 (\<lambda>i. 0)))))) = 0 \<and>
   AddRecord (example_writer False 0 (\<lambda>i. 0)) (replicate 40000 0) 77 =
     Inr (OK, (example_writer False 0 (\<lambda>i. 0))
       \<lparr>dest := \<lparr>calls =
           [(Append2 [77, 0, 0, 0, 0xF9, 0x7F, 2] (replicate 32761 0), 0),
            (Append2 [77, 0, 0, 0, 0x47, 0x1C, 4] (replicate 7239 0), 0)],
                       outcome = (\<lambda>i. 0)\<rparr>,
         block_offset := 7246\<rparr>)"
  (is "?len \<and> ?off \<and> ?mode \<and> ?c0 \<and> ?c1 \<and> ?run")
proof -
  have a: ?len ?off ?mode ?c0 ?c1
    by (simp_all add: example_writer_def Writer_new_def)
  from two_fragments_of_40000[OF a, of 77, THEN conjunct1] have ?run
    by (simp add: header_bytes_def EncodeFixed32_def example_writer_def Writer_new_def)
  with a show ?thesis
    by blast
qed

subsection \<open>The checksum field and the table of the constructor\<close>

lemma EncodeFixed32_inject: "EncodeFixed32 a = EncodeFixed32 b \<Longrightarrow> a = b"
proof (rule bit_eqI)
  fix n :: nat
  assume e: "EncodeFixed32 a = EncodeFixed32 b"
  then have 0: "(ucast a :: byte) = ucast b" 
    and 1: "(ucast (drop_bit 8 a) :: byte) = ucast (drop_bit 8 b)"
    and 2: "(ucast (drop_bit 16 a) :: byte) = ucast (drop_bit 16 b)"
    and 3: "(ucast (drop_bit 24 a) :: byte) = ucast (drop_bit 24 b)"
    by (simp_all add: EncodeFixed32_def)
  consider "n < 8" | "8 \<le> n" "n < 16" | "16 \<le> n" "n < 24" | "24 \<le> n" "n < 32" | "32 \<le> n"
    by linarith
  then show "bit a n = bit b n"
  proof cases
    case 1
    from 0 have "bit (ucast a :: byte) n = bit (ucast b :: byte) n" by simp
    with 1 show ?thesis by (simp add: bit_ucast_iff)
  next
    case 2
    from 1 have "bit (ucast (drop_bit 8 a) :: byte) (n - 8) = bit (ucast (drop_bit 8 b) :: byte) (n - 8)" by simp
    with 2 show ?thesis by (auto simp add: bit_ucast_iff bit_drop_bit_eq)
  next
    case 3
    from 2 have "bit (ucast (drop_bit 16 a) :: byte) (n - 16) = bit (ucast (drop_bit 16 b) :: byte) (n - 16)" by simp
    with 3 show ?thesis by (auto simp add: bit_ucast_iff bit_drop_bit_eq)
  next
    case 4
    from 3 have "bit (ucast (drop_bit 24 a) :: byte) (n - 24) = bit (ucast (drop_bit 24 b) :: byte) (n - 24)" by simp
    with 4 show ?thesis by (auto simp add: bit_ucast_iff bit_drop_bit_eq)
  next
    case 5
    then have "\<not> bit a n" "\<not> bit b n"
      by (auto dest: bit_imp_le_length)
    then show ?thesis by simp
  qed
qed

lemma EmitPhysicalRecord_type_crc:
  "EmitPhysicalRecord (w\<lparr>type_crc := tbl\<rparr>) t ptr n crc =
     (case EmitPhysicalRecord w t ptr n crc of
        Inl a \<Rightarrow> Inl a
      | Inr (s, w') \<Rightarrow> Inr (s, w'\<lparr>type_crc := tbl\<rparr>))"
  by (simp add: EmitPhysicalRecord_def Let_def split: prod.splits)

lemma switch_block_type_crc:
  "switch_block (w\<lparr>type_crc := tbl\<rparr>) hs =
     (case switch_block w hs of Inl a \<Rightarrow> Inl a | Inr w' \<Rightarrow> Inr (w'\<lparr>type_crc := tbl\<rparr>))"
  by (simp add: switch_block_def Let_def)

lemma loop_body_type_crc:
  "loop_body (w\<lparr>type_crc := tbl\<rparr>) ptr left b crc =
     (case loop_body w ptr left b crc of
        Inl a \<Rightarrow> Inl a
      | Inr (s, w', ptr', left') \<Rightarrow> Inr (s, w'\<lparr>type_crc := tbl\<rparr>, ptr', left'))"
  by (simp add: loop_body_def Let_def switch_block_type_crc EmitPhysicalRecord_type_crc
      split: sum.splits prod.splits)

lemma add_record_loop_type_crc:
  "add_record_loop (w\<lparr>type_crc := tbl\<rparr>) ptr left b crc =
     (case add_record_loop w ptr left b crc of
        Inl a \<Rightarrow> Inl a
      | Inr (s, w') \<Rightarrow> Inr (s, w'\<lparr>type_crc := tbl\<rparr>))"
proof (induction w ptr left b crc rule: add_record_loop.induct)
  case (1 w ptr left b crc)
  show ?case
  proof (cases "loop_body w ptr left b crc")
    case (Inl a)
    then show ?thesis
      by (simp add: add_record_loop.simps[of _ ptr left b crc] loop_body_type_crc)
  next
    case (Inr r)
    then obtain s w2 ptr' left' where r: "loop_body w ptr left b crc = Inr (s, w2, ptr', left')"
      by (cases r) auto
    show ?thesis
    proof (cases "s = OK \<and> 0 < left'")
      case True
      from "1.IH"[OF r refl refl refl True] True r show ?thesis
        by (simp add: add_record_loop.simps[of _ ptr left b crc] loop_body_type_crc)
    next
      case False
      with r show ?thesis
        by (auto simp: add_record_loop.simps[of _ ptr left b crc] loop_body_type_crc)
    qed
  qed
qed

text \<open>
  C3 as stated fails. The one-argument form with CRC-32C as \<^verbatim>\<open>calculate_crc\<close>, on the
  one-byte slice \<open>[97]\<close>, writes the checksum of the payload, \<open>0xC1D04330\<close>, into the
  header, not the checksum of the payload seeded with the table entry of the type byte.
  And two calls with the same type and payload and the checksum arguments 0 and 1 write
  different checksum fields, so the field is no function of type byte and payload.
\<close>

theorem checksum_seed_counterexample:
  "AddRecord1 crc32c_Value (example_writer False 0 accepting) [97] =
     Inr (OK, (example_writer False 0 accepting)
       \<lparr>dest := \<lparr>calls = [(Append2 [48, 67, 208, 193, 1, 0, 1] [97], 0)], outcome = accepting\<rparr>,
         block_offset := 8\<rparr>) \<and>
   [48, 67, 208, 193] \<noteq>
     EncodeFixed32 (crc32c_Extend
       (type_crc (example_writer False 0 accepting) ! type_code kFullType) [97]) \<and>
   AddRecord (example_writer False 0 accepting) [97] 0 =
     Inr (OK, (example_writer False 0 accepting)
       \<lparr>dest := \<lparr>calls = [(Append2 [0, 0, 0, 0, 1, 0, 1] [97], 0)], outcome = accepting\<rparr>,
         block_offset := 8\<rparr>) \<and>
   AddRecord (example_writer False 0 accepting) [97] 1 =
     Inr (OK, (example_writer False 0 accepting)
       \<lparr>dest := \<lparr>calls = [(Append2 [1, 0, 0, 0, 1, 0, 1] [97], 0)], outcome = accepting\<rparr>,
         block_offset := 8\<rparr>)"
proof -
  have v: "crc32c_Value [97] = 3251651376"
    by (simp add: crc32c_Value_def crc32c_Extend_def crc32c_byte_def crc32c_shift_def)
  have t: "type_crc (example_writer False 0 accepting) ! type_code kFullType = crc32c_Value [1]"
    by (simp add: example_writer_def Writer_new_def kMaxRecordType_def nth_append)
  have s: "crc32c_Extend (crc32c_Value [1]) [97] = 1903099844"
    by (simp add: crc32c_Value_def crc32c_Extend_def crc32c_byte_def crc32c_shift_def)
  show ?thesis
    unfolding t s
    by (simp add: AddRecord1_def v writer_eval accepting_def)
qed

text \<open>
  C3, amended. Emission does not read the table of per-type checksums that the
  constructor builds: with any other table in its place \<^verbatim>\<open>AddRecord\<close> returns the same
  status and writer (but for the table), and the checksum field of every header it hands
  to the sink is the encoding of the checksum it was called with.
\<close>

theorem checksum_is_the_argument:
  "AddRecord (w\<lparr>type_crc := tbl\<rparr>) sl crc =
     (case AddRecord w sl crc of
        Inl a \<Rightarrow> Inl a
      | Inr (s, w') \<Rightarrow> Inr (s, w'\<lparr>type_crc := tbl\<rparr>)) \<and>
   (case AddRecord w sl crc of
      Inl a \<Rightarrow> True
    | Inr (s, w') \<Rightarrow>
        list_all (\<lambda>hp. take 4 (fst hp) = EncodeFixed32 crc) (records_of (new_calls w w')))"
proof -
  have "list_all (\<lambda>hp. take 4 (fst hp) = EncodeFixed32 crc) (records_of (new_calls w w'))"
    if "AddRecord w sl crc = Inr (s, w')" for s w'
  proof -
    have "take 4 (fst hp) = EncodeFixed32 crc" if "record_ok w crc hp" for hp
      using that by (auto simp: record_ok_def take4_header_bytes)
    with AddRecord_records(1)[OF \<open>AddRecord w sl crc = Inr (s, w')\<close>] show ?thesis
      by (simp add: list_all_iff)
  qed
  then show ?thesis
    by (auto simp: AddRecord_def add_record_with_crc_def add_record_loop_type_crc
        split: sum.splits)
qed

theorem checksum_is_the_argument_witness:
  "AddRecord ((example_writer False 0 accepting)\<lparr>type_crc := []\<rparr>) [97] 77 =
     Inr (OK, (example_writer False 0 accepting)
       \<lparr>dest := \<lparr>calls = [(Append2 [77, 0, 0, 0, 1, 0, 1] [97], 0)], outcome = accepting\<rparr>,
         block_offset := 8, type_crc := []\<rparr>) \<and>
   AddRecord (example_writer False 0 accepting) [97] 77 =
     Inr (OK, (example_writer False 0 accepting)
       \<lparr>dest := \<lparr>calls = [(Append2 [77, 0, 0, 0, 1, 0, 1] [97], 0)], outcome = accepting\<rparr>,
         block_offset := 8\<rparr>)"
  (is "?without \<and> ?with")
proof -
  have r: ?with
    by (simp add: writer_eval accepting_def)
  from checksum_is_the_argument[where w = "example_writer False 0 accepting" and tbl = "[]"
      and sl = "[97]" and crc = 77, THEN conjunct1]
  have ?without
    unfolding r by simp
  with r show ?thesis
    by blast
qed

subsection \<open>A sink that fails\<close>

lemma bytes_written_append: "bytes_written (xs @ ys) = bytes_written xs + bytes_written ys"
  by (induction xs rule: bytes_written.induct) auto

lemma length_header_bytes:
  "length (header_bytes w (fragment_type (recycle_log_files w) b e) n crc) = nat (mode_header_size w)"
  by (simp add: header_bytes_def fragment_type_def EncodeFixed32_def mode_header_size_def
      kHeaderSize_def kRecyclableHeaderSize_def)

text \<open>One iteration from a cursor within the block, in full.\<close>

lemma loop_body_step:
  assumes "cursor_ok w" and "loop_body w ptr left b crc = Inr (s, w2, ptr', left')"
  obtains fill h n r where
    "calls (dest w2) = calls (dest w) @ fill @ [(Append2 h (take (unat n) ptr), r)]"
    "length h = nat (mode_header_size w)"
    "fill = [] \<or> (\<exists>d r'. fill = [(Append1 d, r')])"
    "(unat (block_offset w) + bytes_written fill) mod 32768 =
       (if sint (kBlockSize - block_offset w) < mode_header_size w then 0
        else unat (block_offset w))"
    "s = (if r = 0 then OK else IOError)"
    "unat (block_offset w2) =
       (if sint (kBlockSize - block_offset w) < mode_header_size w then 0
        else unat (block_offset w)) + (if r = 0 then nat (mode_header_size w) + unat n else 0)"
    "unat n = min (unat left)
       (32768 - (if sint (kBlockSize - block_offset w) < mode_header_size w then 0
        else unat (block_offset w)) - nat (mode_header_size w))"
    "ptr' = drop (unat n) ptr" "left' = left - n" "n \<le> left"
    "unat (block_offset w2) \<le> 32768"
proof -
  from loop_body_ok[OF assms(1), of left ptr b crc] obtain w1 n where
    sw: "switch_block w (mode_header_size w) = Inr w1" and
    o: "unat (block_offset w1) + nat (mode_header_size w) \<le> 32768" and
    un: "unat n = min (unat left) (32768 - unat (block_offset w1) - nat (mode_header_size w))" and
    body: "loop_body w ptr left b crc =
      Inr (if outcome (dest w1) (length (calls (dest w1))) = 0 then OK else IOError,
        w1\<lparr>dest := (dest w1)\<lparr>calls := calls (dest w1) @
              [(Append2 (header_bytes w (fragment_type (recycle_log_files w) b (left = n)) n crc)
                  (take (unat n) ptr),
                outcome (dest w1) (length (calls (dest w1))))]\<rparr>,
          block_offset := (if outcome (dest w1) (length (calls (dest w1))) = 0
            then block_offset w1 + (word_of_nat (nat (mode_header_size w)) + n)
            else block_offset w1)\<rparr>,
        drop (unat n) ptr, left - n)" and
    sum: "unat (block_offset w1 + (word_of_nat (nat (mode_header_size w)) + n)) =
       unat (block_offset w1) + nat (mode_header_size w) + unat n"
    by blast
  define r where "r = outcome (dest w1) (length (calls (dest w1)))"
  define h where "h = header_bytes w (fragment_type (recycle_log_files w) b (left = n)) n crc"
  obtain k where k: "unat (block_offset w) = k"
    by simp
  note l = leftover_ok[OF assms(1)]
  have le: "k \<le> 32768"
    using l(3) k by simp
  have sl: "sint (kBlockSize - block_offset w) = int (32768 - k)"
    using l(1) l(2) k by (simp only:)
  have roll: "(sint (kBlockSize - block_offset w) < mode_header_size w) = (32768 - k < nat (mode_header_size w))"
    unfolding sl using mode_header_size_cases[of w] by auto
  note sb = switch_block_ok[OF assms(1) mode_header_size_cases[of w], unfolded k]
  from sw sb have w1: "w1 = (if 32768 - k < nat (mode_header_size w)
         then (if k = 32768 then w\<lparr>block_offset := 0\<rparr>
               else w\<lparr>dest := snd (append1 (dest w) (replicate (32768 - k) 0)),
                      block_offset := 0\<rparr>)
         else w)"
    by simp
  define fill where "fill = (if 32768 - k < nat (mode_header_size w) \<and> k \<noteq> 32768
    then [(Append1 (replicate (32768 - k) (0 :: byte)), outcome (dest w) (length (calls (dest w))))]
    else [])"
  have c1: "calls (dest w1) = calls (dest w) @ fill"
    by (simp add: w1 fill_def append1_def Let_def)
  have o1: "unat (block_offset w1) = (if 32768 - k < nat (mode_header_size w) then 0 else k)"
    by (simp add: w1 k)
  have f1: "(k + bytes_written fill) mod 32768 = (if 32768 - k < nat (mode_header_size w) then 0 else k)"
    using le mode_header_size_cases[of w] by (auto simp: fill_def)
  from assms(2) body have e: "s = (if r = 0 then OK else IOError)"
    "w2 = w1\<lparr>dest := (dest w1)\<lparr>calls := calls (dest w1) @ [(Append2 h (take (unat n) ptr), r)]\<rparr>,
          block_offset := (if r = 0
            then block_offset w1 + (word_of_nat (nat (mode_header_size w)) + n)
            else block_offset w1)\<rparr>"
    "ptr' = drop (unat n) ptr" "left' = left - n"
    by (simp_all add: r_def h_def)
  have c2: "calls (dest w2) = calls (dest w) @ fill @ [(Append2 h (take (unat n) ptr), r)]"
    using c1 by (simp add: e(2))
  have o2': "unat (block_offset w2) = unat (block_offset w1)
      + (if r = 0 then nat (mode_header_size w) + unat n else 0)"
    using sum by (simp add: e(2))
  have o2: "unat (block_offset w2) = (if 32768 - k < nat (mode_header_size w) then 0 else k)
      + (if r = 0 then nat (mode_header_size w) + unat n else 0)"
    using o2' by (simp only: o1)
  have nle: "n \<le> left"
    using un by (simp add: word_le_nat_alt)
  have "unat n \<le> 32768 - unat (block_offset w1) - nat (mode_header_size w)"
    using un by simp
  then have "unat (block_offset w1) + nat (mode_header_size w) + unat n \<le> 32768"
    using o by linarith
  then have b2: "unat (block_offset w2) \<le> 32768"
    using o2' by (cases "r = 0") simp_all
  show ?thesis
    apply (rule that[of fill h n r])
    subgoal by (rule c2)
    subgoal by (simp add: h_def length_header_bytes)
    subgoal by (simp add: fill_def)
    subgoal unfolding roll k by (rule f1)
    subgoal by (rule e(1))
    subgoal unfolding roll k by (rule o2)
    subgoal unfolding roll k using un o1 by simp
    subgoal by (rule e(3))
    subgoal by (rule e(4))
    subgoal by (rule nle)
    subgoal by (rule b2)
    done
qed

lemma accepted_fill: "fill = [] \<or> (\<exists>d r'. fill = [(Append1 d, r')]) \<Longrightarrow>
    list_all accepted fill \<and> records_of fill = []"
  by auto

lemma add_record_loop_cursor:
  assumes "add_record_loop w ptr left b crc = Inr (s, w')" and "cursor_ok w"
    and "unat left \<le> length ptr"
  shows "\<exists>cs. calls (dest w') = calls (dest w) @ cs \<and>
     unat (block_offset w') mod 32768 = (unat (block_offset w) + bytes_written cs) mod 32768 \<and>
     (case s of
        OK \<Rightarrow> list_all accepted cs
      | IOError \<Rightarrow> \<exists>pre h p r. cs = pre @ [(Append2 h p, r)] \<and> r \<noteq> 0 \<and>
          list_all accepted pre \<and>
          block_offset w' =
            (if records_of pre = [] \<and> mode_header_size w \<le> sint (kBlockSize - block_offset w)
             then block_offset w else 0))"
  using assms
proof (induction w ptr left b crc arbitrary: s w' rule: add_record_loop.induct)
  case (1 w ptr left b crc)
  from "1.prems"(1) obtain s2 w2 ptr' left' where
    body: "loop_body w ptr left b crc = Inr (s2, w2, ptr', left')"
    by (auto simp: add_record_loop.simps[of w ptr left b crc] split: sum.splits)
  define X where "X = (if sint (kBlockSize - block_offset w) < mode_header_size w then 0
        else unat (block_offset w))"
  define H where "H = nat (mode_header_size w)"
  from loop_body_step[OF "1.prems"(2) body] obtain fill h n r where
    c: "calls (dest w2) = calls (dest w) @ fill @ [(Append2 h (take (unat n) ptr), r)]" and
    lh: "length h = H" and
    fl: "fill = [] \<or> (\<exists>d r'. fill = [(Append1 d, r')])" and
    fb: "(unat (block_offset w) + bytes_written fill) mod 32768 = X" and
    st: "s2 = (if r = 0 then OK else IOError)" and
    o2: "unat (block_offset w2) = X + (if r = 0 then H + unat n else 0)" and
    un: "unat n = min (unat left) (32768 - X - H)" and
    p: "ptr' = drop (unat n) ptr" and l: "left' = left - n" and nle: "n \<le> left" and
    b2: "unat (block_offset w2) \<le> 32768"
    unfolding X_def H_def by blast
  define cs1 where "cs1 = fill @ [(Append2 h (take (unat n) ptr), r)]"
  have nl: "unat n \<le> unat left" "unat left' = unat left - unat n"
    using nle l by (simp_all add: word_le_nat_alt unat_sub)
  then have lp: "min (length ptr) (unat n) = unat n"
    using "1.prems"(3) by simp
  have bw: "bytes_written cs1 = bytes_written fill + (if r = 0 then H + unat n else 0)"
    by (simp add: cs1_def bytes_written_append lh lp)
  have "(unat (block_offset w) + bytes_written cs1) mod 32768 =
    ((unat (block_offset w) + bytes_written fill) mod 32768 + (if r = 0 then H + unat n else 0)) mod 32768"
    unfolding bw by (simp only: add.assoc[symmetric] mod_add_left_eq)
  then have pos1: "(unat (block_offset w) + bytes_written cs1) mod 32768 = unat (block_offset w2) mod 32768"
    by (simp only: fb o2)
  note af = accepted_fill[OF fl]
  show ?case
  proof (cases "s2 = OK \<and> 0 < left'")
    case False
    with "1.prems"(1) body have e: "s = s2" "w' = w2"
      by (auto simp: add_record_loop.simps[of w ptr left b crc] split: if_splits)
    show ?thesis
    proof (cases "r = 0")
      case True
      then have "list_all accepted cs1"
        using af by (simp add: cs1_def)
      with True st e c pos1 show ?thesis
        by (auto simp: cs1_def intro!: exI[of _ cs1])
    next
      case r: False
      then have "unat (block_offset w2) = X"
        using o2 by simp
      then have "block_offset w2 = (if sint (kBlockSize - block_offset w) < mode_header_size w then 0
        else block_offset w)"
        by (auto simp: X_def unat_eq_0 word_unat_eq_iff split: if_splits)
      then have bo: "block_offset w2 =
            (if records_of fill = [] \<and> mode_header_size w \<le> sint (kBlockSize - block_offset w)
             then block_offset w else 0)"
        using af by auto
      have "\<exists>pre h p r. cs1 = pre @ [(Append2 h p, r)] \<and> r \<noteq> 0 \<and>
          list_all accepted pre \<and>
          block_offset w2 =
            (if records_of pre = [] \<and> mode_header_size w \<le> sint (kBlockSize - block_offset w)
             then block_offset w else 0)"
        using r af bo unfolding cs1_def by blast
      with r st e c pos1 show ?thesis
        by (auto simp: cs1_def intro!: exI[of _ cs1])
    qed
  next
    case True
    then have r: "r = 0"
      using st by (auto split: if_splits)
    from True "1.prems"(1) body have run: "add_record_loop w2 ptr' left' False crc = Inr (s, w')"
      by (simp add: add_record_loop.simps[of w ptr left b crc])
    have ok2: "cursor_ok w2"
      using b2 by (simp add: cursor_ok_def word_le_nat_alt kBlockSize_def)
    have lp': "unat left' \<le> length ptr'"
      using nl p "1.prems"(3) by simp
    from "1.IH"[OF body refl refl refl True run ok2 lp'] obtain cs' where
      c': "calls (dest w') = calls (dest w2) @ cs'" and
      pos': "unat (block_offset w') mod 32768 = (unat (block_offset w2) + bytes_written cs') mod 32768" and
      st': "(case s of
        OK \<Rightarrow> list_all accepted cs'
      | IOError \<Rightarrow> \<exists>pre h p r. cs' = pre @ [(Append2 h p, r)] \<and> r \<noteq> 0 \<and>
          list_all accepted pre \<and>
          block_offset w' =
            (if records_of pre = [] \<and> mode_header_size w2 \<le> sint (kBlockSize - block_offset w2)
             then block_offset w2 else 0))"
      by blast
    have call: "calls (dest w') = calls (dest w) @ (cs1 @ cs')"
      using c c' by (simp add: cs1_def)
    have "(unat (block_offset w) + bytes_written (cs1 @ cs')) mod 32768 =
      ((unat (block_offset w) + bytes_written cs1) mod 32768 + bytes_written cs') mod 32768"
      by (simp only: bytes_written_append add.assoc[symmetric] mod_add_left_eq)
    also have "\<dots> = (unat (block_offset w2) + bytes_written cs') mod 32768"
      by (simp only: pos1 mod_add_left_eq)
    finally have pos: "unat (block_offset w') mod 32768 =
        (unat (block_offset w) + bytes_written (cs1 @ cs')) mod 32768"
      using pos' by simp
    have acc1: "list_all accepted cs1" "records_of cs1 \<noteq> []"
      using af r by (simp_all add: cs1_def records_of_append)
    have stat: "(case s of
        OK \<Rightarrow> list_all accepted (cs1 @ cs')
      | IOError \<Rightarrow> \<exists>pre h p r. cs1 @ cs' = pre @ [(Append2 h p, r)] \<and> r \<noteq> 0 \<and>
          list_all accepted pre \<and>
          block_offset w' =
            (if records_of pre = [] \<and> mode_header_size w \<le> sint (kBlockSize - block_offset w)
             then block_offset w else 0))"
    proof (cases s)
      case OK
      with st' acc1 show ?thesis
        by simp
    next
      case IOError
      with st' obtain pre h' p' r' where
        f: "cs' = pre @ [(Append2 h' p', r')]" "r' \<noteq> 0" "list_all accepted pre"
          "block_offset w' =
            (if records_of pre = [] \<and> mode_header_size w2 \<le> sint (kBlockSize - block_offset w2)
             then block_offset w2 else 0)"
        by auto
      have "left' \<noteq> 0"
        using True by auto
      then have "unat n \<noteq> unat left"
        using nl l by (metis diff_self word_unat_eq_iff)
      then have "unat n = 32768 - X - H"
        using un by linarith
      moreover have "X + H \<le> 32768"
        using b2 o2 r by simp
      ultimately have "unat (block_offset w2) = 32768"
        using o2 r by simp
      then have "block_offset w2 = kBlockSize"
        by (simp add: kBlockSize_def word_unat_eq_iff)
      then have "\<not> mode_header_size w2 \<le> sint (kBlockSize - block_offset w2)"
        using mode_header_size_cases[of w2] by auto
      with f(4) have z: "block_offset w' = 0"
        by simp
      have "cs1 @ cs' = (cs1 @ pre) @ [(Append2 h' p', r')]" "list_all accepted (cs1 @ pre)"
        "records_of (cs1 @ pre) \<noteq> []"
        using f acc1 by (simp_all add: records_of_append)
      with z f(2) IOError show ?thesis
        by (auto intro!: exI[of _ "cs1 @ pre"])
    qed
    from call pos stat show ?thesis
      by blast
  qed
qed

lemma failed_call_is_last:
  assumes "pre @ x # post = pre' @ [x']" and "list_all accepted pre'" and "\<not> accepted x"
  shows "post = [] \<and> pre = pre' \<and> x = x'"
proof (cases post rule: rev_cases)
  case Nil
  with assms(1) show ?thesis
    by simp
next
  case (snoc ys y)
  with assms(1) have "pre @ x # ys = pre'"
    by simp
  then have "x \<in> set pre'"
    by auto
  with assms(2,3) show ?thesis
    by (simp add: list_all_iff)
qed

text \<open>
  C4 as stated fails where the cursor is read as a value that counts the accepted fragments
  only. From the cursor 32750 the first fragment of a record of 20 bytes fills the block
  and leaves the cursor at 32768; the second is rejected, and the call returns with the
  cursor 0, the iteration having switched blocks before it submitted the fragment. From
  the cursor 32764 the first fragment of a record is rejected: no fragment went before,
  yet the cursor has moved to 0 and a filler of 4 bytes is in the sink.
\<close>

theorem cursor_after_rejection_counterexample:
  "AddRecord (example_writer False 32750 (fails_at 1)) (replicate 20 7) 77 =
     Inr (IOError, (example_writer False 32750 (fails_at 1))
       \<lparr>dest := \<lparr>calls = [(Append2 [77, 0, 0, 0, 11, 0, 2] (replicate 11 7), 0),
                                (Append2 [77, 0, 0, 0, 9, 0, 4] (replicate 9 7), 5)],
                       outcome = fails_at 1\<rparr>,
         block_offset := 0\<rparr>) \<and>
   loop_body (example_writer False 32750 (fails_at 1)) (replicate 20 7) 20 True 77 =
     Inr (OK, (example_writer False 32750 (fails_at 1))
       \<lparr>dest := \<lparr>calls = [(Append2 [77, 0, 0, 0, 11, 0, 2] (replicate 11 7), 0)],
                       outcome = fails_at 1\<rparr>,
         block_offset := 32768\<rparr>, replicate 9 7, 9) \<and>
   (0 :: size_t) \<noteq> 32768 \<and>
   AddRecord (example_writer False 32764 (fails_at 1)) [1, 2, 3] 77 =
     Inr (IOError, (example_writer False 32764 (fails_at 1))
       \<lparr>dest := \<lparr>calls = [(Append1 (replicate 4 0), 0),
                                (Append2 [77, 0, 0, 0, 3, 0, 1] [1, 2, 3], 5)],
                       outcome = fails_at 1\<rparr>,
         block_offset := 0\<rparr>) \<and>
   block_offset (example_writer False 32764 (fails_at 1)) = 32764 \<and>
   (0 :: size_t) \<noteq> 32764"
  by (simp add: writer_eval fails_at_def)

text \<open>
  C4, amended. If the sink rejects a physical record during \<^verbatim>\<open>AddRecord\<close> (\<open>r \<noteq> 0\<close>), the call
  returns \<open>IOError\<close>, that call is the last one made (\<open>post = []\<close>), and every record
  before it was accepted. The cursor counts exactly the bytes of the calls before it,
  the filler of a block switch and the accepted records:
  it is the cursor at the start plus those bytes, modulo the block size; the rejected
  record adds nothing and nothing is taken back. As a value, the cursor is the one the
  rejected record was submitted at: the start of a block when a block was switched to
  (which is so whenever a fragment went before), else the cursor at the start.
\<close>

theorem failed_fragment_cursor:
  assumes "cursor_ok w" and "length sl < 2 ^ 64" and "AddRecord w sl crc = Inr (s, w')"
    and "new_calls w w' = pre @ (Append2 h p, r) # post" and "r \<noteq> 0"
  shows "s = IOError \<and> post = [] \<and> list_all accepted pre \<and>
    unat (block_offset w') mod 32768 = (unat (block_offset w) + bytes_written pre) mod 32768 \<and>
    block_offset w' =
      (if records_of pre = [] \<and> mode_header_size w \<le> sint (kBlockSize - block_offset w)
       then block_offset w else 0)"
proof -
  have u: "unat (word_of_nat (length sl) :: size_t) \<le> length sl"
    using assms(2) by (simp add: unat_of_nat take_bit_nat_eq_self)
  from assms(3) have "add_record_loop w sl (word_of_nat (length sl)) True crc = Inr (s, w')"
    by (simp add: AddRecord_def add_record_with_crc_def)
  from add_record_loop_cursor[OF this assms(1) u] obtain cs where
    c: "calls (dest w') = calls (dest w) @ cs" and
    pos: "unat (block_offset w') mod 32768 = (unat (block_offset w) + bytes_written cs) mod 32768" and
    st: "(case s of
        OK \<Rightarrow> list_all accepted cs
      | IOError \<Rightarrow> \<exists>pre h p r. cs = pre @ [(Append2 h p, r)] \<and> r \<noteq> 0 \<and>
          list_all accepted pre \<and>
          block_offset w' =
            (if records_of pre = [] \<and> mode_header_size w \<le> sint (kBlockSize - block_offset w)
             then block_offset w else 0))"
    by blast
  from c assms(4) have cs: "cs = pre @ (Append2 h p, r) # post"
    by (simp add: new_calls_def)
  have na: "\<not> accepted (Append2 h p, r)"
    using assms(5) by simp
  have s: "s = IOError"
  proof (cases s)
    case OK
    with st cs na show ?thesis
      by (simp add: list_all_iff)
  qed
  with st obtain pre' h' p' r' where
    f: "cs = pre' @ [(Append2 h' p', r')]" "r' \<noteq> 0" "list_all accepted pre'"
       "block_offset w' =
            (if records_of pre' = [] \<and> mode_header_size w \<le> sint (kBlockSize - block_offset w)
             then block_offset w else 0)"
    by auto
  from failed_call_is_last[OF cs[unfolded f(1), symmetric] f(3) na]
  have e: "post = []" "pre = pre'" "(Append2 h p, r) = (Append2 h' p', r')"
    by simp_all
  have "bytes_written cs = bytes_written pre"
    using f(1) f(2) e by (simp add: bytes_written_append)
  with pos s e f show ?thesis
    by simp
qed

theorem failed_fragment_cursor_witness:
  "cursor_ok (example_writer False 32750 (fails_at 1)) \<and>
   length (replicate 20 (7 :: byte)) < 2 ^ 64 \<and>
   AddRecord (example_writer False 32750 (fails_at 1)) (replicate 20 7) 77 =
     Inr (IOError, (example_writer False 32750 (fails_at 1))
       \<lparr>dest := \<lparr>calls = [] @ [(Append2 [77, 0, 0, 0, 11, 0, 2] (replicate 11 7), 0)] @
                               (Append2 [77, 0, 0, 0, 9, 0, 4] (replicate 9 7), 5) # [],
                       outcome = fails_at 1\<rparr>,
         block_offset := 0\<rparr>) \<and>
   (5 :: int) \<noteq> 0 \<and>
   list_all accepted [(Append2 [77, 0, 0, 0, 11, 0, 2] (replicate 11 (7 :: byte)), 0)] \<and>
   unat (0 :: size_t) mod 32768 =
     (unat (block_offset (example_writer False 32750 (fails_at 1))) +
      bytes_written [(Append2 [77, 0, 0, 0, 11, 0, 2] (replicate 11 (7 :: byte)), 0)]) mod 32768"
  (is "?ok \<and> ?len \<and> ?run \<and> ?code \<and> ?acc \<and> ?pos")
proof -
  have c: ?ok
    by (simp add: cursor_ok_def example_writer_def Writer_new_def kBlockSize_def)
  have l: ?len
    by simp
  have r: ?run
    by (simp add: writer_eval fails_at_def)
  have n: "new_calls (example_writer False 32750 (fails_at 1))
      ((example_writer False 32750 (fails_at 1))
       \<lparr>dest := \<lparr>calls = [] @ [(Append2 [77, 0, 0, 0, 11, 0, 2] (replicate 11 7), 0)] @
                               (Append2 [77, 0, 0, 0, 9, 0, 4] (replicate 9 7), 5) # [],
                       outcome = fails_at 1\<rparr>,
         block_offset := 0\<rparr>) =
      [(Append2 [77, 0, 0, 0, 11, 0, 2] (replicate 11 7), 0)] @
        (Append2 [77, 0, 0, 0, 9, 0, 4] (replicate 9 7), 5) # []"
    by (simp add: new_calls_def example_writer_def Writer_new_def)
  have k: ?code
    by simp
  from failed_fragment_cursor[OF c l r n k] have "?acc \<and> ?pos"
    by simp
  with c l r k show ?thesis
    by blast
qed

end
